theory Spec2Isabelle
  imports Complex_Main "HOL-Library.AList" "HOL-Library.Multiset"
begin

section \<open>The cycle detector (analyzer.py, count\_cycles\_for\_thresholds)\<close>

text \<open>
  The Python function keeps two local variables, \<^verbatim>\<open>state\<close> (one of the strings
  \<^verbatim>\<open>"waiting_open"\<close>, \<^verbatim>\<open>"waiting_close"\<close>) and \<^verbatim>\<open>count\<close> (a Python int, \<open>cnt\<close> below), and runs
  one \<^verbatim>\<open>if\<close>/\<^verbatim>\<open>elif\<close> per element of \<^verbatim>\<open>spreads\<close>. The function only compares
  its arguments, so the model is polymorphic in a linear order: finite floats compare as
  the numbers they denote (a NaN, which compares false with everything, is outside it).
\<close>

definition cycle_step :: "'a::linorder \<Rightarrow> 'a \<Rightarrow> 'a \<Rightarrow> string \<times> int \<Rightarrow> string \<times> int" where
  "cycle_step open_thr close_thr s sc =
     (case sc of (state, cnt) \<Rightarrow>
        if state = ''waiting_open'' then
          (if open_thr \<le> s then (''waiting_close'', cnt) else (state, cnt))
        else if state = ''waiting_close'' then
          (if s \<le> close_thr then (''waiting_open'', cnt + 1) else (state, cnt))
        else (state, cnt))"

definition count_cycles_for_thresholds :: "'a::linorder list \<Rightarrow> 'a \<Rightarrow> 'a \<Rightarrow> int" where
  "count_cycles_for_thresholds spreads open_thr close_thr =
     snd (fold (cycle_step open_thr close_thr) spreads (''waiting_open'', 0))"

subsection \<open>The detector as the specification words it\<close>

text \<open>
  The specification's state machine: states \<open>WaitingOpen\<close> (initial) and \<open>WaitingClose\<close>;
  in \<open>WaitingOpen\<close> a value at or above the open threshold moves to \<open>WaitingClose\<close>; in
  \<open>WaitingClose\<close> a value at or below the close threshold increments the count and moves
  back; otherwise nothing changes. The count at the end of the input is the result.
\<close>

datatype det_state = WaitingOpen | WaitingClose

fun spec_step :: "'a::linorder \<Rightarrow> 'a \<Rightarrow> det_state \<times> int \<Rightarrow> 'a \<Rightarrow> det_state \<times> int" where
  "spec_step openThreshold closeThreshold (WaitingOpen, n) v =
     (if v \<ge> openThreshold then (WaitingClose, n) else (WaitingOpen, n))"
| "spec_step openThreshold closeThreshold (WaitingClose, n) v =
     (if v \<le> closeThreshold then (WaitingOpen, n + 1) else (WaitingClose, n))"

definition spec_run :: "'a::linorder \<Rightarrow> 'a \<Rightarrow> 'a list \<Rightarrow> det_state \<times> int" where
  "spec_run openThreshold closeThreshold vs =
     foldl (spec_step openThreshold closeThreshold) (WaitingOpen, 0) vs"

definition spec_countCycles :: "'a::linorder list \<Rightarrow> 'a \<Rightarrow> 'a \<Rightarrow> int" where
  "spec_countCycles vs openThreshold closeThreshold = snd (spec_run openThreshold closeThreshold vs)"

fun state_name :: "det_state \<Rightarrow> string" where
  "state_name WaitingOpen = ''waiting_open''"
| "state_name WaitingClose = ''waiting_close''"

text \<open>Progress of a run: two per completed cycle, one more while a cycle is open.\<close>

fun progress :: "det_state \<times> int \<Rightarrow> int" where
  "progress (WaitingOpen, n) = 2 * n"
| "progress (WaitingClose, n) = 2 * n + 1"

section \<open>The live monitor's transition (bot.py, check\_pairs\_loop)\<close>

text \<open>
  The part of the persisted \<^verbatim>\<open>state\<close> dictionary that belongs to one pair key:
  \<^verbatim>\<open>state.get(key)\<close> (absent: \<open>None\<close>, read as \<^verbatim>\<open>"inactive"\<close>) and
  \<^verbatim>\<open>state["cycles"][key]\<close> (absent: \<open>None\<close>, created empty by \<^verbatim>\<open>setdefault\<close>).
  One tick of the loop for that pair gets the clock value \<^verbatim>\<open>int(time.time())\<close> and the
  spread computed from the two prices.
\<close>

record monitor_state =
  mon_status :: "string option"
  mon_cycles :: "int list option"

definition monitor_step :: "'a::linorder \<Rightarrow> 'a \<Rightarrow> int \<times> 'a \<Rightarrow> monitor_state \<Rightarrow> monitor_state" where
  "monitor_step open_spread close_spread tick st =
     (case tick of (now, spread) \<Rightarrow>
        let current = (case mon_status st of None \<Rightarrow> ''inactive'' | Some s \<Rightarrow> s)
        in if current = ''inactive'' \<and> open_spread \<le> spread then
             st\<lparr>mon_status := Some ''active''\<rparr>
           else if current = ''active'' \<and> spread \<le> close_spread then
             st\<lparr>mon_status := Some ''inactive'',
                mon_cycles := Some ((case mon_cycles st of None \<Rightarrow> [] | Some l \<Rightarrow> l) @ [now])\<rparr>
           else st)"

definition recorded_cycles :: "monitor_state \<Rightarrow> int" where
  "recorded_cycles st = (case mon_cycles st of None \<Rightarrow> 0 | Some l \<Rightarrow> int (length l))"

fun mon_name :: "det_state \<Rightarrow> string" where
  "mon_name WaitingOpen = ''inactive''"
| "mon_name WaitingClose = ''active''"

text \<open>
  The monitor's state read in the batch detector's variables: the status under the
  detector's name for it, and the number of cycle timestamps recorded so far.
\<close>

definition mon_current :: "monitor_state \<Rightarrow> string" where
  "mon_current st = (case mon_status st of None \<Rightarrow> ''inactive'' | Some s \<Rightarrow> s)"

definition mon_view :: "monitor_state \<Rightarrow> string \<times> int" where
  "mon_view st =
     (if mon_current st = ''inactive'' then ''waiting_open''
      else if mon_current st = ''active'' then ''waiting_close''
      else mon_current st, recorded_cycles st)"

definition mon_abs :: "monitor_state \<Rightarrow> det_state \<times> int" where
  "mon_abs st = (if mon_current st = ''active'' then WaitingClose else WaitingOpen, recorded_cycles st)"

definition mon_valid :: "monitor_state \<Rightarrow> bool" where
  "mon_valid st = (mon_current st = ''inactive'' \<or> mon_current st = ''active'')"

section \<open>The spread calculator (analyzer.py, calc\_spread\_list)\<close>

text \<open>
  Prices, the coefficient and the spreads are Python floats. They are modelled as the
  numbers they denote, in any linearly ordered field, with exact arithmetic: the rounding
  of each floating-point operation is left out of this function's model. What is kept is
  the control flow: the comparison that chooses which price is scaled, the guard on the
  denominator, and the division, which raises \<^verbatim>\<open>ZeroDivisionError\<close> on a zero divisor.
\<close>

datatype py_error = ZeroDivisionError | KeyError






section \<open>The series aligner (analyzer.py, align\_series)\<close>

text \<open>
  A series is a list of (timestamp, price) pairs; timestamps are Python ints. A Python
  dict is an insertion-ordered association list with unique keys: storing under a key
  that is present replaces its value in place, storing under a new key appends, which is
  what \<open>AList.update\<close> does. So the comprehension \<^verbatim>\<open>{ts: p for ts, p in a}\<close> is a fold
  of updates (a repeated timestamp keeps the last price), \<^verbatim>\<open>dict_a[ts]\<close> is a lookup
  that raises \<^verbatim>\<open>KeyError\<close> on an absent key, and \<^verbatim>\<open>sorted(set(...) & set(...))\<close> is the
  sorted list of the intersection of the two key sets.
\<close>

definition dict_of :: "(int \<times> 'p) list \<Rightarrow> (int \<times> 'p) list" where
  "dict_of points = fold (\<lambda>(ts, p) d. AList.update ts p d) points []"

definition dict_getitem :: "(int \<times> 'p) list \<Rightarrow> int \<Rightarrow> py_error + 'p" where
  "dict_getitem d k = (case map_of d k of None \<Rightarrow> Inl KeyError | Some v \<Rightarrow> Inr v)"

fun project :: "(int \<times> 'p) list \<Rightarrow> int list \<Rightarrow> py_error + 'p list" where
  "project d [] = Inr []"
| "project d (ts # rest) =
     (case dict_getitem d ts of
        Inl e \<Rightarrow> Inl e
      | Inr v \<Rightarrow> (case project d rest of Inl e \<Rightarrow> Inl e | Inr vs \<Rightarrow> Inr (v # vs)))"

definition align_series ::
  "(int \<times> 'p) list \<Rightarrow> (int \<times> 'p) list \<Rightarrow> py_error + (int list \<times> 'p list \<times> 'p list)" where
  "align_series a b =
     (let dict_a = dict_of a;
          dict_b = dict_of b;
          common = sorted_list_of_set (set (map fst dict_a) \<inter> set (map fst dict_b))
      in case project dict_a common of
           Inl e \<Rightarrow> Inl e
         | Inr series_a \<Rightarrow>
             (case project dict_b common of
                Inl e \<Rightarrow> Inl e
              | Inr series_b \<Rightarrow> Inr (common, series_a, series_b)))"

text \<open>The common timestamps of two series, as a function of their points.\<close>

definition common_ts :: "(int \<times> 'p) list \<Rightarrow> (int \<times> 'p) list \<Rightarrow> int list" where
  "common_ts a b = sorted_list_of_set (fst ` set a \<inter> fst ` set b)"

section \<open>Floating point in the threshold sweep\<close>

text \<open>
  The sweep steps its thresholds with float additions, an epsilon of \<^verbatim>\<open>1e-9\<close> and
  \<^verbatim>\<open>round(x, 10)\<close>, and whether a grid point is reached depends on how these round. So
  for the thresholds the rounding is modelled: a double is the rational number it
  denotes, and every operation rounds its exact result to the nearest double, ties to
  the even significand (IEEE 754 binary64, the default rounding mode). \<open>binade x\<close> is
  the exponent e for which |x| lies between 2 to the e (included) and 2 to the e + 1
  (excluded); doubles in that binade are spaced 2 to the (e - 52) apart, and below
  2 to the -1022 (subnormals) the spacing stays 2 to the -1074.
  Results beyond the largest double (infinities) and NaN have no counterpart here.
  CPython's \<^verbatim>\<open>round(x, ndigits)\<close> on a float rounds the exact decimal expansion of x
  to ndigits places, ties to even, and returns the double nearest to that decimal.
\<close>

definition round_half_even :: "rat \<Rightarrow> int" where
  "round_half_even x =
     (let f = \<lfloor>x\<rfloor>; d = x - of_int f
      in if d < 1/2 then f else if 1/2 < d then f + 1 else if even f then f else f + 1)"

fun log2n :: "nat \<Rightarrow> nat" where
  "log2n n = (if n < 2 then 0 else 1 + log2n (n div 2))"

declare log2n.simps [simp del]

definition binade :: "rat \<Rightarrow> int" where
  "binade x =
     (let a = \<bar>x\<bar>
      in if 1 \<le> a then int (log2n (nat \<lfloor>a\<rfloor>))
         else - int (1 + log2n (nat (\<lceil>1 / a\<rceil> - 1))))"

definition ulp_of :: "rat \<Rightarrow> rat" where
  "ulp_of x = 2 powi (max (binade x) (- 1022) - 52)"

definition rnd :: "rat \<Rightarrow> rat" where
  "rnd x = (if x = 0 then 0 else of_int (round_half_even (x / ulp_of x)) * ulp_of x)"

definition fadd :: "rat \<Rightarrow> rat \<Rightarrow> rat" where "fadd x y = rnd (x + y)"
definition fsub :: "rat \<Rightarrow> rat \<Rightarrow> rat" where "fsub x y = rnd (x - y)"
definition py_round :: "rat \<Rightarrow> nat \<Rightarrow> rat" where
  "py_round x ndigits = rnd (of_int (round_half_even (x * 10 ^ ndigits)) / 10 ^ ndigits)"

section \<open>The threshold sweep (analyzer.py, analyze\_pair, lines 133 to 156)\<close>

text \<open>
  The module constants OPEN\_MIN, OPEN\_MAX, OPEN\_STEP and CLOSE\_STEP are read when the
  loops run; the model takes them as a record, and \<open>default_config\<close> holds the values
  analyzer.py gives them. The gap 4.0 and the epsilon 1e-9 are literals of the code.
  The two \<^verbatim>\<open>while\<close> loops may run forever (a step of 0, say), so they are partial
  functions into \<open>option\<close>: \<open>None\<close> is a loop that does not return. Beside \<^verbatim>\<open>results\<close>
  the state carries \<open>sw_calls\<close>, a log of the (open, close) pairs on which
  count\_cycles\_for\_thresholds is called, in call order; it is written nowhere else and
  nothing reads it.
\<close>

record sweep_config =
  OPEN_MIN :: rat
  OPEN_MAX :: rat
  OPEN_STEP :: rat
  CLOSE_STEP :: rat

definition eps :: rat where
  "eps = rnd (1 / 10 ^ 9)"

record sweep_state =
  sw_results :: "(rat \<times> rat \<times> int) list"
  sw_calls :: "(rat \<times> rat) list"

definition sweep_body :: "rat list \<Rightarrow> rat \<Rightarrow> rat \<Rightarrow> sweep_state \<Rightarrow> sweep_state" where
  "sweep_body spreads open_val close_val st =
     (let cycles = count_cycles_for_thresholds spreads open_val close_val
      in \<lparr>sw_results = (if cycles > 0 then sw_results st @ [(open_val, close_val, cycles)]
                        else sw_results st),
          sw_calls = sw_calls st @ [(open_val, close_val)]\<rparr>)"

partial_function (option) close_loop ::
  "sweep_config \<Rightarrow> rat list \<Rightarrow> rat \<Rightarrow> rat \<Rightarrow> rat \<Rightarrow> sweep_state \<Rightarrow> sweep_state option" where
  "close_loop cfg spreads open_val max_close close_val st =
     (if close_val \<le> fadd max_close eps then
        close_loop cfg spreads open_val max_close
          (py_round (fadd close_val (CLOSE_STEP cfg)) 10)
          (sweep_body spreads open_val close_val st)
      else Some st)"

partial_function (option) open_loop ::
  "sweep_config \<Rightarrow> rat list \<Rightarrow> rat \<Rightarrow> sweep_state \<Rightarrow> sweep_state option" where
  "open_loop cfg spreads open_val st =
     (if open_val \<le> fadd (OPEN_MAX cfg) eps then
        (let max_close = py_round (fadd (fsub open_val 4) eps) 10
         in if max_close < 0 then
              open_loop cfg spreads (py_round (fadd open_val (OPEN_STEP cfg)) 10) st
            else
              Option.bind (close_loop cfg spreads open_val max_close 0 st)
                (\<lambda>st'. open_loop cfg spreads (py_round (fadd open_val (OPEN_STEP cfg)) 10) st'))
      else Some st)"

text \<open>
  What the loops append to \<^verbatim>\<open>results\<close> for a list of calls: the calls whose cycle count
  is positive, each with its count, in call order.
\<close>

definition retained :: "rat list \<Rightarrow> (rat \<times> rat) list \<Rightarrow> (rat \<times> rat \<times> int) list" where
  "retained spreads pairs =
     filter (\<lambda>r. 0 < snd (snd r))
       (map (\<lambda>p. (fst p, snd p, count_cycles_for_thresholds spreads (fst p) (snd p))) pairs)"

definition sweep_inv :: "rat list \<Rightarrow> sweep_state \<Rightarrow> bool" where
  "sweep_inv spreads st = (sw_results st = retained spreads (sw_calls st))"

definition run_calls :: "rat list \<Rightarrow> (rat \<times> rat) list \<Rightarrow> sweep_state \<Rightarrow> sweep_state" where
  "run_calls spreads pairs st = fold (\<lambda>p. sweep_body spreads (fst p) (snd p)) pairs st"

text \<open>
  The grid in steps of one half: open values i / 2 for i from a to b, and for each the
  close values j / 2 for j from 0 to i - 8 (that is, up to open - 4).
\<close>

definition half_grid :: "int \<Rightarrow> int \<Rightarrow> (rat \<times> rat) list" where
  "half_grid a b =
     concat (map (\<lambda>i. map (\<lambda>j. (of_int i / 2, of_int j / 2)) [0..i - 8]) [a..b])"

text \<open>Ascending open, then ascending close.\<close>

definition grid_before :: "rat \<times> rat \<Rightarrow> rat \<times> rat \<Rightarrow> bool" where
  "grid_before p q = (fst p < fst q \<or> (fst p = fst q \<and> snd p < snd q))"

definition sweep_loops :: "sweep_config \<Rightarrow> rat list \<Rightarrow> sweep_state option" where
  "sweep_loops cfg spreads =
     open_loop cfg spreads (OPEN_MIN cfg) \<lparr>sw_results = [], sw_calls = []\<rparr>"

text \<open>
  \<^verbatim>\<open>list.sort(key=..., reverse=True)\<close>: CPython reverses the list, sorts it stably by the
  key, and reverses it again, which keeps elements with equal keys in their original
  order. \<open>sort_key\<close> is a stable sort.
\<close>

definition py_sort_reverse :: "('a \<Rightarrow> int) \<Rightarrow> 'a list \<Rightarrow> 'a list" where
  "py_sort_reverse key xs = rev (sort_key key (rev xs))"

record report_entry =
  entry_open :: rat
  entry_close :: rat
  entry_cycles :: int

definition report_of :: "rat \<times> rat \<times> int \<Rightarrow> report_entry" where
  "report_of r =
     \<lparr>entry_open = py_round (fst r) 2, entry_close = py_round (fst (snd r)) 2,
      entry_cycles = snd (snd r)\<rparr>"

definition make_report :: "(rat \<times> rat \<times> int) list \<Rightarrow> report_entry list" where
  "make_report results =
     (if results = [] then []
      else let sorted_results = py_sort_reverse (\<lambda>x. snd (snd x)) results;
               top5 = take 5 sorted_results
           in map report_of top5)"

definition sweep :: "sweep_config \<Rightarrow> rat list \<Rightarrow> report_entry list option" where
  "sweep cfg spreads = map_option (\<lambda>st. make_report (sw_results st)) (sweep_loops cfg spreads)"

definition default_config :: sweep_config where
  "default_config = \<lparr>OPEN_MIN = 4, OPEN_MAX = 30, OPEN_STEP = 1 / 2, CLOSE_STEP = 1 / 2\<rparr>"

section \<open>The orchestrator (analyzer.py, analyze\_pair and main)\<close>












section \<open>Properties of the detector\<close>

lemma cycle_step_refines:
  "cycle_step opn cls v (state_name st, n) =
     (case spec_step opn cls (st, n) v of (st', n') \<Rightarrow> (state_name st', n'))"
  by (cases st) (simp_all add: cycle_step_def)

lemma cycle_fold_refines:
  "fold (cycle_step opn cls) vs (state_name st, n) =
     (case foldl (spec_step opn cls) (st, n) vs of (st', n') \<Rightarrow> (state_name st', n'))"
proof (induction vs arbitrary: st n)
  case Nil
  show ?case by simp
next
  case (Cons v vs)
  obtain st1 n1 where s1: "spec_step opn cls (st, n) v = (st1, n1)"
    by (cases "spec_step opn cls (st, n) v")
  have "cycle_step opn cls v (state_name st, n) = (state_name st1, n1)"
    by (simp add: cycle_step_refines s1)
  then show ?case
    using Cons.IH [of st1 n1] by (simp add: s1)
qed

lemma count_cycles_spec:
  "count_cycles_for_thresholds vs opn cls = snd (foldl (spec_step opn cls) (WaitingOpen, 0) vs)"
proof -
  have "fold (cycle_step opn cls) vs (state_name WaitingOpen, 0) =
        (case foldl (spec_step opn cls) (WaitingOpen, 0) vs of (st', n') \<Rightarrow> (state_name st', n'))"
    by (rule cycle_fold_refines)
  then show ?thesis
    by (simp add: count_cycles_for_thresholds_def split: prod.splits)
qed

lemma snd_progress: "snd p = progress p div 2"
  by (cases p rule: progress.cases) simp_all

lemma progress_step_le: "progress (spec_step opn cls p v) \<le> progress p + 1"
  by (cases p rule: progress.cases) simp_all

lemma progress_step_ge: "progress p \<le> progress (spec_step opn cls p v)"
  by (cases p rule: progress.cases) simp_all

lemma progress_foldl_le:
  "progress (foldl (spec_step opn cls) p vs) \<le> progress p + int (length vs)"
proof (induction vs arbitrary: p)
  case Nil
  show ?case by simp
next
  case (Cons v vs)
  have "progress (foldl (spec_step opn cls) (spec_step opn cls p v) vs)
          \<le> progress (spec_step opn cls p v) + int (length vs)"
    by (rule Cons.IH)
  also have "\<dots> \<le> progress p + 1 + int (length vs)"
    using progress_step_le [of opn cls p v] by simp
  finally show ?case by simp
qed

lemma progress_foldl_ge: "progress p \<le> progress (foldl (spec_step opn cls) p vs)"
proof (induction vs arbitrary: p)
  case Nil
  show ?case by simp
next
  case (Cons v vs)
  have "progress p \<le> progress (spec_step opn cls p v)"
    by (rule progress_step_ge)
  also have "\<dots> \<le> progress (foldl (spec_step opn cls) (spec_step opn cls p v) vs)"
    by (rule Cons.IH)
  finally show ?case by simp
qed

text \<open>
  A run with the lower open threshold is never behind a run with the higher one: a step
  advances the progress by at most one, and where both runs stand at the same progress
  they are in the same state, so whatever lets the stricter run advance lets the other.
\<close>

lemma progress_step_mono:
  assumes "open1 \<le> open2" and "progress p2 \<le> progress p1"
  shows "progress (spec_step open2 cls p2 v) \<le> progress (spec_step open1 cls p1 v)"
proof (cases "progress p2 = progress p1")
  case True
  obtain st1 n1 st2 n2 where p: "p1 = (st1, n1)" "p2 = (st2, n2)"
    by (cases p1, cases p2) blast
  from True have "st1 = st2 \<and> n1 = n2"
    unfolding p by (cases st1; cases st2) (simp_all, presburger+)
  then show ?thesis
    using assms(1) unfolding p by (cases st2) auto
next
  case False
  with assms(2) have "progress p2 + 1 \<le> progress p1" by simp
  moreover have "progress (spec_step open2 cls p2 v) \<le> progress p2 + 1"
    by (rule progress_step_le)
  moreover have "progress p1 \<le> progress (spec_step open1 cls p1 v)"
    by (rule progress_step_ge)
  ultimately show ?thesis by linarith
qed

lemma progress_foldl_mono:
  assumes "open1 \<le> open2"
  shows "progress p2 \<le> progress p1 \<Longrightarrow>
    progress (foldl (spec_step open2 cls) p2 vs) \<le> progress (foldl (spec_step open1 cls) p1 vs)"
proof (induction vs arbitrary: p1 p2)
  case Nil
  then show ?case by simp
next
  case (Cons v vs)
  have "progress (spec_step open2 cls p2 v) \<le> progress (spec_step open1 cls p1 v)"
    using assms Cons.prems by (rule progress_step_mono)
  then show ?case
    using Cons.IH by simp
qed

text \<open>
  Claim C1, as amended. count\_cycles\_for\_thresholds is the two-state detector of the
  specification: on every spread sequence and every pair of thresholds it returns the
  count the specification's machine has reached when the input ends (whatever state the
  machine is in then, so an open cycle is not counted), and 0 on the empty series. On
  the series 1, 5, 6, 2, 0.5, 7, 1 with open 4 and close 1 it returns 2, not 1: the
  cycle opened by 7 is closed by the last value, since 1 \<le> 1, and the machine ends in
  WaitingOpen.
\<close>

theorem count_cycles_is_detector:
  "count_cycles_for_thresholds vs opn cls = spec_countCycles vs opn cls
   \<and> spec_run (4::rat) 1 [1, 5, 6, 2, 1/2, 7, 1] = (WaitingOpen, 2)
   \<and> count_cycles_for_thresholds [1, 5, 6, 2, 1/2, 7, 1] (4::rat) 1 = 2
   \<and> count_cycles_for_thresholds [] opn cls = 0"
proof -
  have a: "count_cycles_for_thresholds vs opn cls = spec_countCycles vs opn cls"
    by (simp add: count_cycles_spec spec_countCycles_def spec_run_def)
  have b: "spec_run (4::rat) 1 [1, 5, 6, 2, 1/2, 7, 1] = (WaitingOpen, 2)"
    by (simp add: spec_run_def)
  have c: "count_cycles_for_thresholds [1, 5, 6, 2, 1/2, 7, 1] (4::rat) 1 = 2"
    by (simp add: count_cycles_for_thresholds_def cycle_step_def)
  have d: "count_cycles_for_thresholds [] opn cls = 0"
    by (simp add: count_cycles_for_thresholds_def)
  from a b c d show ?thesis by blast
qed

text \<open>
  The scenario of claim C1 as the claim states it (result 1) fails on the code.
\<close>

theorem count_cycles_scenario_counterexample:
  "count_cycles_for_thresholds [1, 5, 6, 2, 1/2, 7, 1] (4::rat) 1 \<noteq> 1"
  by (simp add: count_cycles_for_thresholds_def cycle_step_def)

text \<open>
  Claim C3. For a fixed close threshold the cycle count is antitone in the open
  threshold: raising the open threshold never raises the count.
\<close>

theorem count_cycles_antitone:
  assumes "open1 \<le> open2"
  shows "count_cycles_for_thresholds vs open2 cls \<le> count_cycles_for_thresholds vs open1 cls"
proof -
  have "progress (foldl (spec_step open2 cls) (WaitingOpen, 0) vs)
          \<le> progress (foldl (spec_step open1 cls) (WaitingOpen, 0) vs)"
    using assms by (rule progress_foldl_mono) simp
  then show ?thesis
    by (simp add: count_cycles_spec snd_progress zdiv_mono1)
qed

theorem count_cycles_antitone_witness:
  "(4::rat) \<le> 6
   \<and> count_cycles_for_thresholds [5, 0, 7, 0] (6::rat) 0 = 1
   \<and> count_cycles_for_thresholds [5, 0, 7, 0] (4::rat) 0 = 2
   \<and> count_cycles_for_thresholds [5, 0, 7, 0] (6::rat) 0
       \<le> count_cycles_for_thresholds [5, 0, 7, 0] (4::rat) 0"
proof -
  have h: "(4::rat) \<le> 6" by simp
  have a: "count_cycles_for_thresholds [5, 0, 7, 0] (6::rat) 0 = 1"
    by (simp add: count_cycles_for_thresholds_def cycle_step_def)
  have b: "count_cycles_for_thresholds [5, 0, 7, 0] (4::rat) 0 = 2"
    by (simp add: count_cycles_for_thresholds_def cycle_step_def)
  from h a b count_cycles_antitone [OF h, of "[5, 0, 7, 0]" 0] show ?thesis by blast
qed

text \<open>
  Claim C4. On a series of length n the cycle count is an integer between 0 and
  n div 2 (the floor of n / 2), for every pair of thresholds.
\<close>

theorem count_cycles_bounds:
  "0 \<le> count_cycles_for_thresholds vs opn cls
   \<and> count_cycles_for_thresholds vs opn cls \<le> int (length vs) div 2"
proof -
  let ?p = "foldl (spec_step opn cls) (WaitingOpen, 0) vs"
  have "progress (WaitingOpen, 0) \<le> progress ?p"
    by (rule progress_foldl_ge)
  then have lo: "0 \<le> progress ?p div 2" by simp
  have "progress ?p \<le> progress (WaitingOpen, 0) + int (length vs)"
    by (rule progress_foldl_le)
  then have hi: "progress ?p div 2 \<le> int (length vs) div 2"
    by (simp add: zdiv_mono1)
  from lo hi show ?thesis
    by (simp add: count_cycles_spec snd_progress)
qed

section \<open>The monitor against the batch detector\<close>

lemma monitor_step_abs:
  assumes "mon_valid m"
  shows "mon_valid (monitor_step opn cls (now, v) m)
         \<and> mon_abs (monitor_step opn cls (now, v) m) = spec_step opn cls (mon_abs m) v"
  using assms
  by (auto simp: mon_valid_def mon_abs_def mon_current_def monitor_step_def recorded_cycles_def
           split: option.splits)

lemma monitor_fold_abs:
  "mon_valid m \<Longrightarrow>
     mon_abs (fold (monitor_step opn cls) ticks m) = foldl (spec_step opn cls) (mon_abs m) (map snd ticks)"
proof (induction ticks arbitrary: m)
  case Nil
  show ?case by simp
next
  case (Cons t ticks)
  obtain now v where t: "t = (now, v)" by (cases t)
  from monitor_step_abs [OF Cons.prems, of opn cls now v]
  have v: "mon_valid (monitor_step opn cls (now, v) m)"
    and a: "mon_abs (monitor_step opn cls (now, v) m) = spec_step opn cls (mon_abs m) v"
    by simp_all
  show ?case
    using Cons.IH [OF v] by (simp add: a t)
qed

lemma monitor_fold_count:
  assumes "mon_valid m" and "mon_abs m = (WaitingOpen, 0)"
  shows "recorded_cycles (fold (monitor_step opn cls) ticks m)
           = count_cycles_for_thresholds (map snd ticks) opn cls"
proof -
  have "recorded_cycles (fold (monitor_step opn cls) ticks m)
          = snd (mon_abs (fold (monitor_step opn cls) ticks m))"
    by (simp add: mon_abs_def)
  also have "\<dots> = snd (foldl (spec_step opn cls) (WaitingOpen, 0) (map snd ticks))"
    using monitor_fold_abs [OF assms(1), of opn cls ticks] assms(2) by simp
  finally show ?thesis
    by (simp add: count_cycles_spec)
qed

text \<open>
  Claim C8. One tick of the live monitor is the batch detector's step, read through the
  names of the states (inactive for waiting\_open, active for waiting\_close) and the
  number of recorded cycles; and folding the monitor's tick over any finite sequence of
  (clock, spread) pairs from the inactive state with no cycle recorded (the entry the bot
  creates at start, or an absent entry, which it reads as inactive) records as many
  cycles as count\_cycles\_for\_thresholds returns on the spreads with the same thresholds.
\<close>

theorem monitor_refines_detector:
  "mon_view (monitor_step opn cls (now, v) \<lparr>mon_status = Some (mon_name st), mon_cycles = Some l\<rparr>)
     = cycle_step opn cls v (state_name st, int (length l))
   \<and> recorded_cycles (fold (monitor_step opn cls) ticks \<lparr>mon_status = Some ''inactive'', mon_cycles = Some []\<rparr>)
     = count_cycles_for_thresholds (map snd ticks) opn cls
   \<and> recorded_cycles (fold (monitor_step opn cls) ticks \<lparr>mon_status = None, mon_cycles = None\<rparr>)
     = count_cycles_for_thresholds (map snd ticks) opn cls"
proof -
  have a: "mon_view (monitor_step opn cls (now, v) \<lparr>mon_status = Some (mon_name st), mon_cycles = Some l\<rparr>)
     = cycle_step opn cls v (state_name st, int (length l))"
    by (cases st)
       (simp_all add: mon_view_def monitor_step_def cycle_step_def mon_current_def recorded_cycles_def)
  have b: "recorded_cycles (fold (monitor_step opn cls) ticks \<lparr>mon_status = Some ''inactive'', mon_cycles = Some []\<rparr>)
     = count_cycles_for_thresholds (map snd ticks) opn cls"
    by (rule monitor_fold_count)
       (simp_all add: mon_valid_def mon_abs_def mon_current_def recorded_cycles_def)
  have c: "recorded_cycles (fold (monitor_step opn cls) ticks \<lparr>mon_status = None, mon_cycles = None\<rparr>)
     = count_cycles_for_thresholds (map snd ticks) opn cls"
    by (rule monitor_fold_count)
       (simp_all add: mon_valid_def mon_abs_def mon_current_def recorded_cycles_def)
  from a b c show ?thesis by blast
qed

section \<open>Properties of the spread calculator\<close>










section \<open>Properties of the series aligner\<close>

lemma fold_update_keys:
  "fst ` set (fold (\<lambda>(ts, p) d. AList.update ts p d) xs d) = fst ` set xs \<union> fst ` set d"
proof (induction xs arbitrary: d)
  case Nil
  show ?case by simp
next
  case (Cons x xs)
  obtain ts p where x: "x = (ts, p)" by (cases x)
  have "fst ` set (fold (\<lambda>(ts, p) d. AList.update ts p d) xs (AList.update ts p d))
          = fst ` set xs \<union> fst ` set (AList.update ts p d)"
    by (rule Cons.IH)
  then show ?case
    by (simp add: x dom_update Un_commute Un_left_commute insert_commute)
qed

lemma fold_update_distinct:
  "distinct (map fst d) \<Longrightarrow> distinct (map fst (fold (\<lambda>(ts, p) d. AList.update ts p d) xs d))"
  by (induction xs arbitrary: d) (auto simp: distinct_update)

lemma fold_update_map_of:
  "map_of (fold (\<lambda>(ts, p) d. AList.update ts p d) xs d) = map_of d ++ map_of (rev xs)"
  by (induction xs arbitrary: d) (auto simp: update_conv' map_add_upd_left)


lemma keys_dict_of: "fst ` set (dict_of xs) = fst ` set xs"
  by (simp add: dict_of_def fold_update_keys)

lemma map_of_dict_of: "map_of (dict_of xs) = map_of (rev xs)"
  by (simp add: dict_of_def fold_update_map_of)

lemma project_total:
  "set ks \<subseteq> fst ` set d \<Longrightarrow> project d ks = Inr (map (\<lambda>k. the (map_of d k)) ks)"
proof (induction ks)
  case Nil
  show ?case by simp
next
  case (Cons k ks)
  from Cons.prems have "k \<in> fst ` set d" by simp
  then obtain v where v: "map_of d k = Some v"
    by (metis domD dom_map_of_conv_image_fst)
  from Cons.prems have "project d ks = Inr (map (\<lambda>k. the (map_of d k)) ks)"
    by (intro Cons.IH) simp
  then show ?case
    by (simp add: dict_getitem_def v)
qed

lemma set_common_ts: "set (common_ts a b) = fst ` set a \<inter> fst ` set b"
  by (simp add: common_ts_def)

lemma align_series_value:
  "align_series a b =
     Inr (common_ts a b,
          map (\<lambda>k. the (map_of (rev a) k)) (common_ts a b),
          map (\<lambda>k. the (map_of (rev b) k)) (common_ts a b))"
proof -
  have c: "sorted_list_of_set (set (map fst (dict_of a)) \<inter> set (map fst (dict_of b))) = common_ts a b"
    by (simp add: keys_dict_of common_ts_def)
  have pa: "project (dict_of a) (common_ts a b) = Inr (map (\<lambda>k. the (map_of (dict_of a) k)) (common_ts a b))"
    by (rule project_total) (simp add: set_common_ts keys_dict_of)
  have pb: "project (dict_of b) (common_ts a b) = Inr (map (\<lambda>k. the (map_of (dict_of b) k)) (common_ts a b))"
    by (rule project_total) (simp add: set_common_ts keys_dict_of)
  show ?thesis
    unfolding align_series_def Let_def c pa pb by (simp add: map_of_dict_of)
qed

lemma last_point_member:
  assumes "k \<in> fst ` set a"
  shows "map_of (rev a) k = Some (the (map_of (rev a) k)) \<and> (k, the (map_of (rev a) k)) \<in> set a"
proof -
  from assms have "k \<in> fst ` set (rev a)" by simp
  then obtain v where v: "map_of (rev a) k = Some v"
    by (metis domD dom_map_of_conv_image_fst)
  then have "(k, v) \<in> set (rev a)" by (rule map_of_SomeD)
  with v show ?thesis by simp
qed

lemma reorder_same_lookup:
  assumes "mset a' = mset a" and "distinct (map fst a)"
  shows "map_of (rev a') = map_of (rev a)"
proof -
  from assms(1) have s: "set a' = set a" by (rule mset_eq_setD)
  from assms(1) have "mset (map fst a') = mset (map fst a)" by simp
  then have d: "distinct (map fst a')"
    using assms(2) by (metis mset_eq_imp_distinct_iff)
  have "map_of (rev a') = map_of (rev a) \<longleftrightarrow> set (rev a') = set (rev a)"
    by (rule map_of_inject_set) (simp_all add: rev_map [symmetric] d assms(2))
  with s show ?thesis by simp
qed

lemma reorder_same_common:
  assumes "mset a' = mset a" and "mset b' = mset b"
  shows "common_ts a' b' = common_ts a b"
proof -
  have "set a' = set a" "set b' = set b"
    using assms by (auto dest: mset_eq_setD)
  then show ?thesis by (simp add: common_ts_def)
qed

text \<open>
  Claim C6, as amended. For every two series of (timestamp, price) points align\_series
  returns (it raises nothing) the sorted list of the intersection of their timestamp
  sets, strictly increasing, with two price sequences of the same length; index i of each
  is the price of the last point of that series (in input order) with the i-th common
  timestamp, a point of the series; when the intersection is empty all three outputs are
  empty; the returned timestamps do not depend on the order of the points in the inputs;
  and when the timestamps within each series are unique, the whole result does not
  depend on that order.
\<close>

theorem align_series_sorted_intersection:
  "\<exists>common sa sb.
      align_series a b = Inr (common, sa, sb)
    \<and> common = sorted_list_of_set (fst ` set a \<inter> fst ` set b)
    \<and> sorted_wrt (<) common
    \<and> length sa = length common \<and> length sb = length common
    \<and> (\<forall>i < length common.
          map_of (rev a) (common ! i) = Some (sa ! i) \<and> (common ! i, sa ! i) \<in> set a
        \<and> map_of (rev b) (common ! i) = Some (sb ! i) \<and> (common ! i, sb ! i) \<in> set b)
    \<and> (fst ` set a \<inter> fst ` set b = {} \<longrightarrow> common = [] \<and> sa = [] \<and> sb = [])
    \<and> (\<forall>a' b'. mset a' = mset a \<and> mset b' = mset b \<longrightarrow>
          (\<exists>sa' sb'. align_series a' b' = Inr (common, sa', sb')))
    \<and> (distinct (map fst a) \<and> distinct (map fst b) \<longrightarrow>
          (\<forall>a' b'. mset a' = mset a \<and> mset b' = mset b \<longrightarrow> align_series a' b' = align_series a b))"
proof -
  let ?c = "common_ts a b"
  let ?sa = "map (\<lambda>k. the (map_of (rev a) k)) ?c"
  let ?sb = "map (\<lambda>k. the (map_of (rev b) k)) ?c"
  have r: "align_series a b = Inr (?c, ?sa, ?sb)"
    by (rule align_series_value)
  have c: "?c = sorted_list_of_set (fst ` set a \<inter> fst ` set b)"
    by (simp add: common_ts_def)
  have s: "sorted_wrt (<) ?c"
    by (simp add: common_ts_def)
  have pt: "map_of (rev a) (?c ! i) = Some (?sa ! i) \<and> (?c ! i, ?sa ! i) \<in> set a
          \<and> map_of (rev b) (?c ! i) = Some (?sb ! i) \<and> (?c ! i, ?sb ! i) \<in> set b"
    if "i < length ?c" for i
  proof -
    from that have "?c ! i \<in> set ?c" by simp
    then have "?c ! i \<in> fst ` set a" "?c ! i \<in> fst ` set b"
      by (simp_all add: set_common_ts)
    then show ?thesis
      using that last_point_member [of "?c ! i" a] last_point_member [of "?c ! i" b] by simp
  qed
  have e: "fst ` set a \<inter> fst ` set b = {} \<longrightarrow> ?c = [] \<and> ?sa = [] \<and> ?sb = []"
    by (simp add: common_ts_def)
  have t: "\<exists>sa' sb'. align_series a' b' = Inr (?c, sa', sb')"
    if "mset a' = mset a \<and> mset b' = mset b" for a' b'
    using that align_series_value [of a' b'] reorder_same_common [of a' a b' b] by simp
  have o: "align_series a' b' = align_series a b"
    if "distinct (map fst a) \<and> distinct (map fst b)" "mset a' = mset a \<and> mset b' = mset b" for a' b'
    using that reorder_same_common [of a' a b' b]
      reorder_same_lookup [of a' a] reorder_same_lookup [of b' b]
    by (simp add: align_series_value)
  from r c s pt e t o show ?thesis
    by (intro exI [of _ ?c] exI [of _ ?sa] exI [of _ ?sb]) (simp only: length_map, blast)
qed


theorem align_series_witness:
  "align_series [(3, 30), (1, 10), (2, 20 :: int)] [(2, 200), (3, 300), (5, 500)]
     = Inr ([2, 3], [20, 30], [200, 300])
   \<and> align_series [(1, 10), (2, 20), (3, 30 :: int)] [(5, 500), (3, 300), (2, 200)]
     = align_series [(3, 30), (1, 10), (2, 20)] [(2, 200), (3, 300), (5, 500)]"
proof -
  let ?a = "[(3 :: int, 30 :: int), (1, 10), (2, 20)]"
  let ?b = "[(2 :: int, 200 :: int), (3, 300), (5, 500)]"
  let ?a' = "[(1 :: int, 10 :: int), (2, 20), (3, 30)]"
  let ?b' = "[(5 :: int, 500 :: int), (3, 300), (2, 200)]"
  have v: "align_series ?a ?b = Inr ([2, 3], [20, 30], [200, 300])"
    by (simp add: align_series_def dict_of_def dict_getitem_def)
  have d: "distinct (map fst ?a) \<and> distinct (map fst ?b)" by simp
  have m: "mset ?a' = mset ?a \<and> mset ?b' = mset ?b" by simp
  from align_series_sorted_intersection [of ?a ?b]
  have "distinct (map fst ?a) \<and> distinct (map fst ?b) \<longrightarrow>
          (\<forall>a' b'. mset a' = mset ?a \<and> mset b' = mset ?b \<longrightarrow> align_series a' b' = align_series ?a ?b)"
    by blast
  with d m have "align_series ?a' ?b' = align_series ?a ?b" by blast
  with v show ?thesis by simp
qed

text \<open>
  Claim C6 as stated (the result independent of the input order for every two series)
  fails where a timestamp is repeated within a series: the last point wins, so swapping
  the two points changes the price returned.
\<close>

theorem align_series_order_counterexample:
  "mset [(1, 20), (1, 10 :: int)] = mset [(1, 10), (1, 20)]
   \<and> align_series [(1, 10), (1, 20 :: int)] [(1, 5)] = Inr ([1], [20], [5])
   \<and> align_series [(1, 20), (1, 10 :: int)] [(1, 5)] = Inr ([1], [10], [5])
   \<and> align_series [(1, 10), (1, 20 :: int)] [(1, 5)] \<noteq> align_series [(1, 20), (1, 10)] [(1, 5)]"
  by (simp add: align_series_def dict_of_def dict_getitem_def)

section \<open>Properties of the floating-point operations\<close>

lemma log2n_bounds: "0 < n \<Longrightarrow> 2 ^ log2n n \<le> n \<and> n < 2 ^ (log2n n + 1)"
proof (induction n rule: log2n.induct)
  case (1 n)
  show ?case
  proof (cases "n < 2")
    case True
    with "1.prems" have "n = 1" by simp
    then show ?thesis by (simp add: log2n.simps)
  next
    case False
    then have h: "0 < n div 2" by simp
    from "1.IH" [OF False h]
    have lo: "2 ^ log2n (n div 2) \<le> n div 2" and hi: "n div 2 < 2 ^ (log2n (n div 2) + 1)"
      by simp_all
    have e: "log2n n = 1 + log2n (n div 2)"
      using False by (subst log2n.simps) simp
    from lo have "2 * 2 ^ log2n (n div 2) \<le> n" by linarith
    moreover from hi have "n < 2 * 2 ^ (log2n (n div 2) + 1)" by linarith
    ultimately show ?thesis by (simp add: e)
  qed
qed

lemma round_half_even_of_int [simp]: "round_half_even (of_int n) = n"
  by (simp add: round_half_even_def)


lemma round_half_even_error: "\<bar>of_int (round_half_even x) - x\<bar> \<le> 1/2"
proof -
  define f where "f = \<lfloor>x\<rfloor>"
  define d where "d = x - of_int f"
  have d: "0 \<le> d" "d < 1"
    unfolding d_def f_def by linarith+
  have x: "x = of_int f + d" by (simp add: d_def)
  have r: "round_half_even x =
      (if d < 1/2 then f else if 1/2 < d then f + 1 else if even f then f else f + 1)"
    unfolding round_half_even_def Let_def d_def f_def by (rule refl)
  have dd: "of_int (round_half_even x) - x = of_int (round_half_even x) - of_int f - d"
    by (simp add: d_def)
  consider "d < 1/2" | "1/2 < d" | "d = 1/2" by linarith
  then show ?thesis
  proof cases
    case 1
    then have "round_half_even x = f" by (simp add: r)
    then show ?thesis unfolding dd using 1 d by simp
  next
    case 2
    then have "round_half_even x = f + 1" by (simp add: r)
    then show ?thesis unfolding dd using 2 d by simp
  next
    case 3
    then have "round_half_even x = f \<or> round_half_even x = f + 1" by (simp add: r)
    then show ?thesis unfolding dd using 3 by (elim disjE) simp_all
  qed
qed

lemma binade_bounds:
  assumes "x \<noteq> 0"
  shows "2 powi binade x \<le> \<bar>x\<bar> \<and> \<bar>x\<bar> < 2 powi (binade x + 1)"
proof (cases "1 \<le> \<bar>x\<bar>")
  case True
  define n where "n = nat \<lfloor>\<bar>x\<bar>\<rfloor>"
  have n1: "0 < n" using True by (simp add: n_def)
  have b: "binade x = int (log2n n)"
    using True by (simp add: binade_def n_def)
  from log2n_bounds [OF n1] have lo: "2 ^ log2n n \<le> n" and hi: "n < 2 ^ (log2n n + 1)"
    by simp_all
  have nf: "rat_of_nat n = of_int \<lfloor>\<bar>x\<bar>\<rfloor>"
    using True by (simp add: n_def)
  have "rat_of_nat (2 ^ log2n n) \<le> rat_of_nat n"
    using lo by (simp only: of_nat_le_iff)
  also have "\<dots> \<le> \<bar>x\<bar>" by (simp add: nf)
  finally have l: "2 powi binade x \<le> \<bar>x\<bar>" by (simp add: b)
  from hi have "n + 1 \<le> 2 ^ (log2n n + 1)" by simp
  then have "rat_of_nat (n + 1) \<le> rat_of_nat (2 ^ (log2n n + 1))"
    by (simp only: of_nat_le_iff)
  moreover have "\<bar>x\<bar> < rat_of_nat (n + 1)"
    using nf by simp linarith
  ultimately have "\<bar>x\<bar> < rat_of_nat (2 ^ (log2n n + 1))" by linarith
  then have h: "\<bar>x\<bar> < 2 powi (binade x + 1)"
    by (simp add: b power_int_add)
  from l h show ?thesis by simp
next
  case False
  define a where "a = \<bar>x\<bar>"
  have a: "0 < a" "a < 1" using assms False by (simp_all add: a_def)
  define y where "y = 1 / a"
  have y: "1 < y" using a by (simp add: y_def)
  define m where "m = nat (\<lceil>y\<rceil> - 1)"
  have c2: "2 \<le> \<lceil>y\<rceil>" using y by linarith
  then have m1: "0 < m" by (simp add: m_def)
  have mc: "rat_of_nat m = of_int \<lceil>y\<rceil> - 1"
    using c2 by (simp add: m_def)
  define k where "k = log2n m"
  have b: "binade x = - int (k + 1)"
    using False by (simp add: binade_def k_def m_def y_def a_def Let_def)
  have e1: "(2::rat) powi binade x = 1 / 2 ^ (k + 1)"
    unfolding b by (simp only: power_int_minus_divide power_int_of_nat)
  have "binade x + 1 = - int k" by (simp add: b)
  then have e2: "(2::rat) powi (binade x + 1) = 1 / 2 ^ k"
    by (simp only: power_int_minus_divide power_int_of_nat)
  from log2n_bounds [OF m1] have lo: "2 ^ k \<le> m" and hi: "m < 2 ^ (k + 1)"
    by (simp_all add: k_def)
  have "rat_of_nat (2 ^ k) \<le> rat_of_nat m"
    using lo by (simp only: of_nat_le_iff)
  also have "\<dots> < y" using mc by linarith
  finally have ylo: "2 ^ k < y" by simp
  from hi have "m + 1 \<le> 2 ^ (k + 1)" by simp
  then have "rat_of_nat (m + 1) \<le> rat_of_nat (2 ^ (k + 1))"
    by (simp only: of_nat_le_iff)
  moreover have "y \<le> rat_of_nat (m + 1)"
    using mc by simp
  ultimately have yhi: "y \<le> 2 ^ (k + 1)" by simp
  have p: "(0::rat) < 2 ^ k" "(0::rat) < 2 ^ (k + 1)" by simp_all
  have ay: "a = 1 / y" using a by (simp add: y_def)
  have l: "2 powi binade x \<le> a"
  proof -
    have "1 / 2 ^ (k + 1) \<le> 1 / y"
      using yhi y by (intro divide_left_mono) simp_all
    then show ?thesis
      unfolding e1 ay .
  qed
  have h: "a < 2 powi (binade x + 1)"
  proof -
    have "1 / y < 1 / 2 ^ k"
      using ylo p y by (intro divide_strict_left_mono) simp_all
    then show ?thesis
      unfolding e2 ay .
  qed
  from l h show ?thesis by (simp add: a_def)
qed


lemma binade_less:
  assumes "x \<noteq> 0" and "\<bar>x\<bar> < 2 powi k"
  shows "binade x < k"
proof (rule ccontr)
  assume "\<not> binade x < k"
  then have "k \<le> binade x" by simp
  then have "(2::rat) powi k \<le> 2 powi binade x"
    by (intro power_int_increasing) simp_all
  with binade_bounds [OF assms(1)] assms(2) show False by linarith
qed

lemma binade_ge:
  assumes "x \<noteq> 0" and "2 powi k \<le> \<bar>x\<bar>"
  shows "k \<le> binade x"
proof (rule ccontr)
  assume "\<not> k \<le> binade x"
  then have "binade x + 1 \<le> k" by simp
  then have "(2::rat) powi (binade x + 1) \<le> 2 powi k"
    by (intro power_int_increasing) simp_all
  with binade_bounds [OF assms(1)] assms(2) show False by linarith
qed

lemma ulp_of_pos: "0 < ulp_of x"
  by (simp add: ulp_of_def)

lemma rnd_error: "\<bar>rnd x - x\<bar> \<le> ulp_of x / 2"
proof (cases "x = 0")
  case True
  then show ?thesis using ulp_of_pos [of x] by (simp add: rnd_def)
next
  case False
  define u where "u = ulp_of x"
  have u: "0 < u" by (simp add: u_def ulp_of_pos)
  have "rnd x - x = (of_int (round_half_even (x / u)) - x / u) * u"
    using False u by (simp add: rnd_def u_def [symmetric] algebra_simps)
  then have "\<bar>rnd x - x\<bar> = \<bar>of_int (round_half_even (x / u)) - x / u\<bar> * u"
    using u by (simp add: abs_mult)
  also have "\<dots> \<le> 1/2 * u"
    using round_half_even_error [of "x / u"] u by (intro mult_right_mono) simp_all
  finally show ?thesis by (simp add: u_def)
qed

lemma ulp_of_le:
  assumes "x \<noteq> 0" and "\<bar>x\<bar> < 2 powi k" and "- 1021 \<le> k"
  shows "ulp_of x \<le> 2 powi (k - 53)"
proof -
  have "binade x < k" using assms(1,2) by (rule binade_less)
  then have "max (binade x) (- 1022) - 52 \<le> k - 53"
    using assms(3) by simp
  then show ?thesis
    unfolding ulp_of_def by (intro power_int_increasing) simp_all
qed

text \<open>Below 64 in magnitude a rounding moves a number by at most 2 to the -48.\<close>

lemma rnd_error_64:
  assumes "\<bar>x\<bar> < 64"
  shows "\<bar>rnd x - x\<bar> \<le> 1 / 281474976710656"
proof (cases "x = 0")
  case True
  then show ?thesis by (simp add: rnd_def)
next
  case False
  have "\<bar>x\<bar> < 2 powi 6" using assms by simp
  with False have "ulp_of x \<le> 2 powi (6 - 53)"
    by (rule ulp_of_le) simp
  then have "ulp_of x \<le> 1 / 2 ^ 47"
    by (simp add: power_int_minus_divide)
  with rnd_error [of x] show ?thesis by simp
qed

lemma rnd_exact:
  assumes "x = of_int n * ulp_of x"
  shows "rnd x = x"
proof (cases "x = 0")
  case True
  then show ?thesis by (simp add: rnd_def)
next
  case False
  have u: "ulp_of x \<noteq> 0" using ulp_of_pos [of x] by simp
  have "x / ulp_of x = of_int n"
    using u by (subst assms) simp
  then show ?thesis
    using False assms by (simp add: rnd_def)
qed

text \<open>Halves of integers below 2 to the 53 are doubles: rounding leaves them alone.\<close>

lemma rnd_half:
  assumes "\<bar>n\<bar> < 2 ^ 53"
  shows "rnd (of_int n / 2) = of_int n / 2"
proof (cases "n = 0")
  case True
  then show ?thesis by (simp add: rnd_def)
next
  case False
  define x :: rat where "x = of_int n / 2"
  have x0: "x \<noteq> 0" using False by (simp add: x_def)
  have ax: "\<bar>x\<bar> = of_int \<bar>n\<bar> / 2" by (simp add: x_def)
  have "1 \<le> \<bar>n\<bar>" using False by simp
  then have "(1::rat) \<le> of_int \<bar>n\<bar>" by (simp only: of_int_1_le_iff)
  then have "2 powi (- 1) \<le> \<bar>x\<bar>" by (simp add: ax)
  with x0 have lo: "- 1 \<le> binade x" by (rule binade_ge)
  have "rat_of_int \<bar>n\<bar> < of_int (2 ^ 53)"
    using assms by (simp only: of_int_less_iff)
  then have "\<bar>x\<bar> < 2 powi 52" by (simp add: ax)
  with x0 have hi: "binade x < 52" by (rule binade_less)
  define e where "e = binade x"
  have u: "ulp_of x = 2 powi (e - 52)"
    using lo by (simp add: ulp_of_def e_def)
  have p: "(2::rat) ^ nat (51 - e) = 2 powi (51 - e)"
    using hi by (simp add: e_def power_int_def)
  have s: "(2::rat) powi (51 - e) * 2 powi (e - 52) = 2 powi ((51 - e) + (e - 52))"
    by (rule power_int_add [symmetric]) simp
  have "(51 - e) + (e - 52) = - 1" by simp
  then have "(2::rat) powi ((51 - e) + (e - 52)) = 2 powi (- 1)" by (rule arg_cong)
  also have "\<dots> = 1 / 2" by simp
  finally have h: "(2::rat) ^ nat (51 - e) * 2 powi (e - 52) = 1 / 2"
    unfolding p s .
  have "x = of_int (n * 2 ^ nat (51 - e)) * ulp_of x"
    unfolding u using h by (simp add: x_def mult.assoc)
  then have "rnd x = x" by (rule rnd_exact)
  then show ?thesis by (simp add: x_def)
qed

lemma fadd_half:
  assumes "\<bar>i + j\<bar> < 2 ^ 53"
  shows "fadd (of_int i / 2) (of_int j / 2) = of_int (i + j) / 2"
proof -
  have e: "rat_of_int i / 2 + of_int j / 2 = of_int (i + j) / 2"
    by (simp add: add_divide_distrib)
  show ?thesis
    unfolding fadd_def e by (rule rnd_half [OF assms])
qed

lemma fsub_half:
  assumes "\<bar>i - j\<bar> < 2 ^ 53"
  shows "fsub (of_int i / 2) (of_int j / 2) = of_int (i - j) / 2"
proof -
  have e: "rat_of_int i / 2 - of_int j / 2 = of_int (i - j) / 2"
    by (simp add: diff_divide_distrib)
  show ?thesis
    unfolding fsub_def e by (rule rnd_half [OF assms])
qed

lemma py_round_half:
  assumes "\<bar>n\<bar> < 2 ^ 53" and "0 < d"
  shows "py_round (of_int n / 2) d = of_int n / 2"
proof -
  obtain d' where d: "d = Suc d'" using assms(2) by (cases d) simp_all
  have a: "rat_of_int n / 2 * 10 ^ d = of_int (n * 5 * 10 ^ d')"
    by (simp add: d)
  have c: "rat_of_int (n * 5 * 10 ^ d') / 10 ^ d = of_int n / 2"
    by (simp add: d)
  show ?thesis
    unfolding py_round_def a round_half_even_of_int c by (rule rnd_half [OF assms(1)])
qed

lemma py_round_error_10:
  assumes "\<bar>x\<bar> < 63"
  shows "\<bar>py_round x 10 - x\<bar> \<le> 1 / 20000000000 + 1 / 281474976710656"
proof -
  define c :: rat where "c = 10 ^ 10"
  have c: "0 < c" by (simp add: c_def)
  define r where "r = rat_of_int (round_half_even (x * c)) / c"
  have "r - x = (of_int (round_half_even (x * c)) - x * c) / c"
    using c by (simp add: r_def diff_divide_distrib)
  then have "\<bar>r - x\<bar> = \<bar>(of_int (round_half_even (x * c)) - x * c) / c\<bar>"
    by (rule arg_cong)
  also have "\<dots> = \<bar>of_int (round_half_even (x * c)) - x * c\<bar> / c"
    using c by (simp only: abs_div_pos)
  also have "\<dots> \<le> (1/2) / c"
    using round_half_even_error [of "x * c"] c by (intro divide_right_mono) simp_all
  finally have rx: "\<bar>r - x\<bar> \<le> 1 / 20000000000" by (simp add: c_def)
  then have "\<bar>r\<bar> < 64" using assms by linarith
  then have "\<bar>rnd r - r\<bar> \<le> 1 / 281474976710656" by (rule rnd_error_64)
  moreover have "py_round x 10 = rnd r" by (simp add: py_round_def r_def c_def)
  ultimately show ?thesis using rx by linarith
qed

section \<open>Properties of the threshold sweep\<close>

lemma sweep_body_inv: "sweep_inv spreads st \<Longrightarrow> sweep_inv spreads (sweep_body spreads o_val c_val st)"
  by (simp add: sweep_inv_def sweep_body_def retained_def Let_def)

lemma close_loop_inv:
  assumes r: "close_loop cfg spreads o_val mc c_val st = Some st'"
  shows "sweep_inv spreads st \<longrightarrow> sweep_inv spreads st'"
proof (rule close_loop.raw_induct
    [where P = "\<lambda>cfg spreads o_val mc c_val st st'. sweep_inv spreads st \<longrightarrow> sweep_inv spreads st'",
     OF _ r])
  fix f :: "sweep_config \<Rightarrow> rat list \<Rightarrow> rat \<Rightarrow> rat \<Rightarrow> rat \<Rightarrow> sweep_state \<Rightarrow> sweep_state option"
    and cfg :: sweep_config and spreads :: "rat list" and o_val mc c_val :: rat
    and st st' :: sweep_state
  assume IH: "\<And>cfg spreads o_val mc c_val st y.
      f cfg spreads o_val mc c_val st = Some y \<Longrightarrow> sweep_inv spreads st \<longrightarrow> sweep_inv spreads y"
  assume h: "(if c_val \<le> fadd mc eps
      then f cfg spreads o_val mc (py_round (fadd c_val (CLOSE_STEP cfg)) 10)
             (sweep_body spreads o_val c_val st)
      else Some st) = Some st'"
  show "sweep_inv spreads st \<longrightarrow> sweep_inv spreads st'"
  proof (cases "c_val \<le> fadd mc eps")
    case True
    with h have "f cfg spreads o_val mc (py_round (fadd c_val (CLOSE_STEP cfg)) 10)
        (sweep_body spreads o_val c_val st) = Some st'"
      by simp
    from IH [OF this] show ?thesis
      by (blast intro: sweep_body_inv)
  next
    case False
    with h show ?thesis by simp
  qed
qed

lemma open_loop_inv:
  assumes r: "open_loop cfg spreads o_val st = Some st'"
  shows "sweep_inv spreads st \<longrightarrow> sweep_inv spreads st'"
proof (rule open_loop.raw_induct
    [where P = "\<lambda>cfg spreads o_val st st'. sweep_inv spreads st \<longrightarrow> sweep_inv spreads st'",
     OF _ r])
  fix f :: "sweep_config \<Rightarrow> rat list \<Rightarrow> rat \<Rightarrow> sweep_state \<Rightarrow> sweep_state option"
    and cfg :: sweep_config and spreads :: "rat list" and o_val :: rat
    and st st' :: sweep_state
  let ?mc = "py_round (fadd (fsub o_val 4) eps) 10"
  let ?next = "py_round (fadd o_val (OPEN_STEP cfg)) 10"
  assume IH: "\<And>cfg spreads o_val st y.
      f cfg spreads o_val st = Some y \<Longrightarrow> sweep_inv spreads st \<longrightarrow> sweep_inv spreads y"
  assume h: "(if o_val \<le> fadd (OPEN_MAX cfg) eps
      then let max_close = py_round (fadd (fsub o_val 4) eps) 10
           in if max_close < 0
              then f cfg spreads (py_round (fadd o_val (OPEN_STEP cfg)) 10) st
              else Option.bind (close_loop cfg spreads o_val max_close 0 st)
                     (f cfg spreads (py_round (fadd o_val (OPEN_STEP cfg)) 10))
      else Some st) = Some st'"
  show "sweep_inv spreads st \<longrightarrow> sweep_inv spreads st'"
  proof (cases "o_val \<le> fadd (OPEN_MAX cfg) eps")
    case False
    with h show ?thesis by simp
  next
    case g: True
    show ?thesis
    proof (cases "?mc < 0")
      case True
      with g h have "f cfg spreads ?next st = Some st'" by simp
      from IH [OF this] show ?thesis .
    next
      case False
      with g h
      have "Option.bind (close_loop cfg spreads o_val ?mc 0 st) (f cfg spreads ?next) = Some st'"
        by simp
      then obtain st1 where c: "close_loop cfg spreads o_val ?mc 0 st = Some st1"
        and o: "f cfg spreads ?next st1 = Some st'"
        by (auto simp: bind_eq_Some_conv)
      from close_loop_inv [OF c] IH [OF o] show ?thesis by blast
    qed
  qed
qed

lemma run_calls_append [simp]:
  "run_calls spreads (ps @ qs) st = run_calls spreads qs (run_calls spreads ps st)"
  by (simp add: run_calls_def)

lemma run_calls_Nil [simp]: "run_calls spreads [] st = st"
  by (simp add: run_calls_def)

lemma run_calls_Cons [simp]:
  "run_calls spreads (p # ps) st = run_calls spreads ps (sweep_body spreads (fst p) (snd p) st)"
  by (simp add: run_calls_def)

lemma sw_calls_run_calls: "sw_calls (run_calls spreads ps st) = sw_calls st @ ps"
  by (induction ps arbitrary: st) (simp_all add: sweep_body_def Let_def)

lemma eps_bounds: "9 / 10000000000 \<le> eps \<and> eps \<le> 11 / 10000000000"
proof -
  have "\<bar>rnd (1 / 10 ^ 9) - 1 / 10 ^ 9\<bar> \<le> 1 / 281474976710656"
    by (rule rnd_error_64) simp
  moreover have "(1::rat) / 10 ^ 9 = 1 / 1000000000" by simp
  ultimately have "\<bar>eps - 1 / 1000000000\<bar> \<le> 1 / 281474976710656"
    by (simp only: eps_def)
  then show ?thesis by linarith
qed

lemma fadd_eps_bounds:
  assumes "0 \<le> x" and "x \<le> 62"
  shows "x + 8 / 10000000000 \<le> fadd x eps \<and> fadd x eps \<le> x + 12 / 10000000000"
proof -
  from eps_bounds have e: "9 / 10000000000 \<le> eps" "eps \<le> 11 / 10000000000" by simp_all
  have "\<bar>x + eps\<bar> < 64" using assms e by linarith
  then have "\<bar>rnd (x + eps) - (x + eps)\<bar> \<le> 1 / 281474976710656"
    by (rule rnd_error_64)
  then show ?thesis
    unfolding fadd_def using e by linarith
qed

text \<open>
  The inner guard for an open value (k + 8) / 2: max\_close is not negative, and
  max\_close + 1e-9 lies strictly between k / 2 and (k + 1) / 2.
\<close>

lemma guard_bounds:
  assumes "0 \<le> k" and "k \<le> 120"
  defines "mc \<equiv> py_round (fadd (of_int k / 2) eps) 10"
  shows "0 \<le> mc \<and> of_int k / 2 \<le> fadd mc eps \<and> fadd mc eps < of_int (k + 1) / 2"
proof -
  define x :: rat where "x = of_int k / 2"
  have "(0::rat) \<le> of_int k" "rat_of_int k \<le> 120"
    using assms(1,2) by simp_all
  then have x: "0 \<le> x" "x \<le> 60"
    by (simp_all add: x_def)
  define t where "t = fadd x eps"
  have t: "x + 8 / 10000000000 \<le> t" "t \<le> x + 12 / 10000000000"
    using fadd_eps_bounds [of x] x by (simp_all add: t_def)
  have "\<bar>t\<bar> < 63" using t x by linarith
  then have "\<bar>py_round t 10 - t\<bar> \<le> 1 / 20000000000 + 1 / 281474976710656"
    by (rule py_round_error_10)
  moreover have "mc = py_round t 10" by (simp add: mc_def t_def x_def)
  ultimately have m: "x + 7 / 10000000000 \<le> mc" "mc \<le> x + 13 / 10000000000"
    using t by linarith+
  have m0: "0 \<le> mc" "mc \<le> 62" using m x by linarith+
  then have g: "mc + 8 / 10000000000 \<le> fadd mc eps" "fadd mc eps \<le> mc + 12 / 10000000000"
    using fadd_eps_bounds [of mc] by simp_all
  have "rat_of_int (k + 1) / 2 = x + 1 / 2" by (simp add: x_def add_divide_distrib)
  moreover have "x \<le> fadd mc eps" "fadd mc eps < x + 1 / 2"
    using m g by linarith+
  ultimately show ?thesis using m0 by (simp add: x_def)
qed


lemma step_half:
  assumes "\<bar>j + 1\<bar> < 2 ^ 53"
  shows "py_round (fadd (of_int j / 2) (1 / 2)) 10 = of_int (j + 1) / 2"
proof -
  have a: "fadd (of_int j / 2) (of_int 1 / 2) = of_int (j + 1) / 2"
    using assms by (rule fadd_half)
  have o: "(1::rat) / 2 = of_int 1 / 2" by simp
  show ?thesis
    unfolding o a using assms by (rule py_round_half) simp
qed

lemma close_loop_grid:
  assumes step: "CLOSE_STEP cfg = 1 / 2"
    and lo: "of_int k / 2 \<le> fadd mc eps" and hi: "fadd mc eps < of_int (k + 1) / 2"
    and k: "k \<le> 120"
  shows "0 \<le> j \<Longrightarrow> j \<le> k + 1 \<Longrightarrow>
    close_loop cfg spreads o_val mc (of_int j / 2) st
      = Some (run_calls spreads (map (\<lambda>j. (o_val, of_int j / 2)) [j..k]) st)"
proof (induction "nat (k + 1 - j)" arbitrary: j st)
  case 0
  then have j: "j = k + 1" by simp
  have "\<not> rat_of_int j / 2 \<le> fadd mc eps"
    using hi by (simp add: j)
  then show ?case
    by (subst close_loop.simps) (simp add: j)
next
  case (Suc n)
  then have jk: "j \<le> k" by simp
  then have "rat_of_int j \<le> of_int k" by (simp only: of_int_le_iff)
  then have g: "rat_of_int j / 2 \<le> fadd mc eps"
    using lo by simp
  have "\<bar>j + 1\<bar> < 2 ^ 53" using Suc.prems jk k by simp
  then have nx: "py_round (fadd (of_int j / 2) (1 / 2)) 10 = of_int (j + 1) / 2"
    by (rule step_half)
  have "n = nat (k + 1 - (j + 1))" using Suc.hyps(2) by simp
  then have ih: "close_loop cfg spreads o_val mc (of_int (j + 1) / 2) st'
      = Some (run_calls spreads (map (\<lambda>j. (o_val, of_int j / 2)) [j + 1..k]) st')" for st'
    using Suc.prems jk by (intro Suc.hyps(1)) simp_all
  have u: "[j..k] = j # [j + 1..k]" using jk by (rule upto_rec1)
  show ?case
    by (subst close_loop.simps) (simp only: g if_True step nx ih u list.map run_calls_Cons fst_conv snd_conv)
qed

lemma open_loop_grid:
  assumes mx: "OPEN_MAX cfg = of_int b / 2" and os: "OPEN_STEP cfg = 1 / 2"
    and cs: "CLOSE_STEP cfg = 1 / 2" and b: "b \<le> 120"
  shows "8 \<le> i \<Longrightarrow> i \<le> b + 1 \<Longrightarrow>
    open_loop cfg spreads (of_int i / 2) st = Some (run_calls spreads (half_grid i b) st)"
proof (induction "nat (b + 1 - i)" arbitrary: i st)
  case 0
  then have i: "i = b + 1" by simp
  have "0 \<le> rat_of_int b / 2" "rat_of_int b / 2 \<le> 62"
    using 0 b by simp_all
  from fadd_eps_bounds [OF this]
  have "fadd (of_int b / 2) eps < of_int b / 2 + 1 / 2" by linarith
  then have "\<not> rat_of_int i / 2 \<le> fadd (OPEN_MAX cfg) eps"
    by (simp add: i mx add_divide_distrib)
  then show ?case
    by (subst open_loop.simps) (simp add: i half_grid_def)
next
  case (Suc n)
  then have ib: "i \<le> b" by simp
  have b0: "0 \<le> rat_of_int b / 2" "rat_of_int b / 2 \<le> 62"
    using Suc.prems ib b by simp_all
  from fadd_eps_bounds [OF this]
  have "of_int b / 2 \<le> fadd (of_int b / 2) eps" by linarith
  moreover have "rat_of_int i \<le> of_int b" using ib by (simp only: of_int_le_iff)
  ultimately have g: "rat_of_int i / 2 \<le> fadd (OPEN_MAX cfg) eps"
    by (simp add: mx)
  define k where "k = i - 8"
  have k: "0 \<le> k" "k \<le> 120" using Suc.prems ib b by (simp_all add: k_def)
  have "\<bar>i - 8\<bar> < 2 ^ 53" using Suc.prems ib b by simp
  then have sb: "fsub (of_int i / 2) 4 = of_int k / 2"
    using fsub_half [of i 8] by (simp add: k_def)
  define mc where "mc = py_round (fadd (of_int k / 2) eps) 10"
  from guard_bounds [OF k]
  have mc: "0 \<le> mc" "of_int k / 2 \<le> fadd mc eps" "fadd mc eps < of_int (k + 1) / 2"
    by (simp_all add: mc_def)
  have cl: "close_loop cfg spreads (of_int i / 2) mc 0 st
      = Some (run_calls spreads (map (\<lambda>j. (of_int i / 2, of_int j / 2)) [0..k]) st)"
    using close_loop_grid [OF cs mc(2,3) k(2), of 0 spreads "of_int i / 2" st] k(1) by simp
  have "\<bar>i + 1\<bar> < 2 ^ 53" using Suc.prems ib b by simp
  then have nx: "py_round (fadd (of_int i / 2) (1 / 2)) 10 = of_int (i + 1) / 2"
    by (rule step_half)
  have "n = nat (b + 1 - (i + 1))" using Suc.hyps(2) by simp
  then have ih: "open_loop cfg spreads (of_int (i + 1) / 2) st'
      = Some (run_calls spreads (half_grid (i + 1) b) st')" for st'
    using Suc.prems ib by (intro Suc.hyps(1)) simp_all
  have u: "[i..b] = i # [i + 1..b]" using ib by (rule upto_rec1)
  have hg: "half_grid i b = map (\<lambda>j. (of_int i / 2, of_int j / 2)) [0..k] @ half_grid (i + 1) b"
    by (simp add: half_grid_def u k_def)
  have nm: "\<not> mc < 0" using mc(1) by simp
  show ?case
    by (subst open_loop.simps)
       (simp only: g if_True sb mc_def [symmetric] Let_def nm if_False cl os nx ih hg
                   run_calls_append Option.bind.simps)
qed

lemma half_grid_8_10:
  "half_grid 8 10 = [(4, 0), (9/2, 0), (9/2, 1/2), (5, 0), (5, 1/2), (5, 1)]"
  by (simp add: half_grid_def upto_rec1)


lemma sweep_loops_grid:
  assumes "OPEN_MIN cfg = of_int a / 2" and "OPEN_MAX cfg = of_int b / 2"
    and "OPEN_STEP cfg = 1 / 2" and "CLOSE_STEP cfg = 1 / 2"
    and "8 \<le> a" and "a \<le> b + 1" and "b \<le> 120"
  shows "sweep_loops cfg spreads
           = Some (run_calls spreads (half_grid a b) \<lparr>sw_results = [], sw_calls = []\<rparr>)"
  unfolding sweep_loops_def assms(1)
  by (rule open_loop_grid [OF assms(2,3,4,7,5,6)])

lemma sweep_loops_inv:
  assumes "sweep_loops cfg spreads = Some st"
  shows "sw_results st = retained spreads (sw_calls st)"
proof -
  have "sweep_inv spreads \<lparr>sw_results = [], sw_calls = []\<rparr>"
    by (simp add: sweep_inv_def retained_def)
  with open_loop_inv [OF assms [unfolded sweep_loops_def]] show ?thesis
    by (simp add: sweep_inv_def)
qed

lemma py_sort_reverse_mset: "mset (py_sort_reverse f xs) = mset xs"
  by (simp add: py_sort_reverse_def)

lemma py_sort_reverse_desc: "sorted_wrt (\<lambda>a b. b \<le> a) (map f (py_sort_reverse f xs))"
proof -
  have "sorted (map f (sort_key f (rev xs)))" by (rule sorted_sort_key)
  then have "sorted_wrt (\<lambda>a b. b \<le> a) (rev (map f (sort_key f (rev xs))))"
    by (simp only: sorted_wrt_rev)
  then show ?thesis
    by (simp add: py_sort_reverse_def rev_map)
qed

lemma py_sort_reverse_stable:
  "filter (\<lambda>y. f y = k) (py_sort_reverse f xs) = filter (\<lambda>y. f y = k) xs"
proof -
  have "filter (\<lambda>y. f y = k) (sort_key f (rev xs)) = filter (\<lambda>y. f y = k) (rev xs)"
    by (rule sort_key_stable)
  then have "rev (filter (\<lambda>y. f y = k) (sort_key f (rev xs))) = rev (filter (\<lambda>y. f y = k) (rev xs))"
    by (rule arg_cong)
  then show ?thesis
    by (simp add: py_sort_reverse_def rev_filter)
qed

lemma make_report_ranked:
  "make_report rs = map report_of (take 5 (py_sort_reverse (\<lambda>x. snd (snd x)) rs))"
  by (simp add: make_report_def py_sort_reverse_def)

lemma half_grid_round2:
  assumes "p \<in> set (half_grid a b)" and "- 120 \<le> a" and "b \<le> 120"
  shows "py_round (fst p) 2 = fst p \<and> py_round (snd p) 2 = snd p"
proof -
  from assms(1) obtain i j where ij: "p = (of_int i / 2, of_int j / 2)" "a \<le> i" "i \<le> b" "0 \<le> j" "j \<le> i - 8"
    by (auto simp: half_grid_def)
  have "\<bar>i\<bar> < 2 ^ 53" "\<bar>j\<bar> < 2 ^ 53" using ij assms(2,3) by simp_all
  then show ?thesis
    using py_round_half [of i 2] py_round_half [of j 2] by (simp add: ij(1))
qed

text \<open>
  Claim C7. With OPEN\_MIN 4, OPEN\_MAX 5, both steps 0.5 (and the gap 4 the code has
  built in), the floating-point loops return, and the pairs on which the cycle detector
  is called are, in order and each once, (4, 0), (4.5, 0), (4.5, 0.5), (5, 0), (5, 0.5),
  (5, 1), for every spread series: the rounding of the additions, of the epsilon 1e-9
  and of round(., 10) neither drops nor repeats a grid point.
\<close>

theorem sweep_grid_4_to_5:
  "\<exists>st. sweep_loops \<lparr>OPEN_MIN = 4, OPEN_MAX = 5, OPEN_STEP = 1 / 2, CLOSE_STEP = 1 / 2\<rparr> spreads
           = Some st
       \<and> sw_calls st = [(4, 0), (9 / 2, 0), (9 / 2, 1 / 2), (5, 0), (5, 1 / 2), (5, 1)]
       \<and> distinct (sw_calls st)
       \<and> set (sw_calls st) = {(4, 0), (9 / 2, 0), (9 / 2, 1 / 2), (5, 0), (5, 1 / 2), (5, 1)}"
proof -
  let ?cfg = "\<lparr>OPEN_MIN = 4, OPEN_MAX = 5, OPEN_STEP = 1 / 2, CLOSE_STEP = 1 / 2\<rparr>"
  let ?st = "run_calls spreads (half_grid 8 10) \<lparr>sw_results = [], sw_calls = []\<rparr>"
  have "sweep_loops ?cfg spreads = Some ?st"
    by (rule sweep_loops_grid) simp_all
  moreover have c: "sw_calls ?st = [(4, 0), (9 / 2, 0), (9 / 2, 1 / 2), (5, 0), (5, 1 / 2), (5, 1)]"
    unfolding sw_calls_run_calls half_grid_8_10 by simp
  moreover have "distinct (sw_calls ?st)"
    unfolding c by simp
  moreover have "set (sw_calls ?st) = {(4, 0), (9 / 2, 0), (9 / 2, 1 / 2), (5, 0), (5, 1 / 2), (5, 1)}"
    unfolding c by simp
  ultimately show ?thesis by blast
qed

section \<open>The ranked report\<close>

lemma default_sweep_returns:
  "sweep_loops default_config spreads
     = Some (run_calls spreads (half_grid 8 60) \<lparr>sw_results = [], sw_calls = []\<rparr>)"
  by (rule sweep_loops_grid) (simp_all add: default_config_def)

lemma report_of_half_grid:
  assumes "r \<in> set (retained spreads (half_grid a b))" and "- 120 \<le> a" and "b \<le> 120"
  shows "entry_open (report_of r) = fst r \<and> entry_close (report_of r) = fst (snd r)
         \<and> entry_cycles (report_of r) = snd (snd r)"
proof -
  from assms(1) have "(fst r, fst (snd r)) \<in> set (half_grid a b)"
    by (auto simp: retained_def)
  from half_grid_round2 [OF this assms(2,3)] show ?thesis
    by (simp add: report_of_def)
qed

lemma grid_row_ascending:
  "sorted_wrt grid_before (map (\<lambda>j. (o_val, rat_of_int j / 2)) [0..k])"
proof -
  have "sorted_wrt (\<lambda>x y. grid_before (o_val, rat_of_int x / 2) (o_val, rat_of_int y / 2)) [0..k]"
    by (rule sorted_wrt_mono_rel [OF _ sorted_wrt_upto]) (simp add: grid_before_def)
  then show ?thesis by (simp add: sorted_wrt_map)
qed

lemma half_grid_fst:
  assumes "p \<in> set (half_grid a b)"
  shows "\<exists>i. a \<le> i \<and> fst p = of_int i / 2"
  using assms by (auto simp: half_grid_def)

lemma half_grid_ascending: "sorted_wrt grid_before (half_grid a b)"
proof (induction "nat (b + 1 - a)" arbitrary: a)
  case 0
  then have "[a..b] = []" by simp
  then show ?case by (simp add: half_grid_def)
next
  case (Suc n)
  then have ab: "a \<le> b" by simp
  have u: "[a..b] = a # [a + 1..b]" using ab by (rule upto_rec1)
  have hg: "half_grid a b = map (\<lambda>j. (of_int a / 2, of_int j / 2)) [0..a - 8] @ half_grid (a + 1) b"
    by (simp add: half_grid_def u)
  have "n = nat (b + 1 - (a + 1))" using Suc.hyps(2) by simp
  then have ih: "sorted_wrt grid_before (half_grid (a + 1) b)" by (rule Suc.hyps(1))
  have cross: "grid_before p q"
    if "p \<in> set (map (\<lambda>j. (rat_of_int a / 2, rat_of_int j / 2)) [0..a - 8])"
      and "q \<in> set (half_grid (a + 1) b)" for p q
  proof -
    from that(1) have "fst p = of_int a / 2" by auto
    moreover from half_grid_fst [OF that(2)] obtain i where "a + 1 \<le> i" "fst q = of_int i / 2"
      by blast
    moreover have "rat_of_int a < of_int i" using \<open>a + 1 \<le> i\<close> by simp
    ultimately show ?thesis by (simp add: grid_before_def)
  qed
  show ?case
    unfolding hg sorted_wrt_append using grid_row_ascending ih cross by blast
qed

text \<open>
  Claim C2, as amended. For every spread series and every sweep configuration on which
  the loops return, the report is made of the first five, at most, of the retained
  results (the pairs on which the detector was called whose cycle count is positive, with
  their counts) ranked by cycle count, descending, with ties in the order of the calls;
  each entry carries the ranked pair's open and close rounded to two decimals by
  round(., 2) and its count; with nothing retained the report is the empty list. On the
  configuration of analyzer.py (4, 30, 0.5, 0.5) the loops return for every series, the
  calls are the grid from (4, 0) to (30, 26) in ascending open, then ascending close,
  and the rounding to two decimals changes no entry.
\<close>

theorem sweep_report_ranked:
  "(sweep_loops cfg spreads = Some st \<longrightarrow>
      (\<exists>ranked.
          sweep cfg spreads = Some (map report_of (take 5 ranked))
        \<and> mset ranked = mset (retained spreads (sw_calls st))
        \<and> sorted_wrt (\<lambda>a b. b \<le> a) (map (\<lambda>r. snd (snd r)) ranked)
        \<and> (\<forall>k. filter (\<lambda>r. snd (snd r) = k) ranked
                 = filter (\<lambda>r. snd (snd r) = k) (retained spreads (sw_calls st)))
        \<and> length (map report_of (take 5 ranked)) \<le> 5
        \<and> (retained spreads (sw_calls st) = [] \<longrightarrow> sweep cfg spreads = Some [])))
   \<and> (\<exists>st. sweep_loops default_config spreads = Some st
          \<and> sw_calls st = half_grid 8 60
          \<and> sorted_wrt grid_before (sw_calls st)
          \<and> (\<forall>r \<in> set (retained spreads (sw_calls st)).
                 entry_open (report_of r) = fst r \<and> entry_close (report_of r) = fst (snd r)
               \<and> entry_cycles (report_of r) = snd (snd r)))"
proof (intro conjI impI)
  assume r: "sweep_loops cfg spreads = Some st"
  let ?rs = "retained spreads (sw_calls st)"
  let ?ranked = "py_sort_reverse (\<lambda>x. snd (snd x)) ?rs"
  have res: "sw_results st = ?rs"
    using r by (rule sweep_loops_inv)
  have a: "sweep cfg spreads = Some (map report_of (take 5 ?ranked))"
    by (simp add: sweep_def r res make_report_ranked)
  have b: "mset ?ranked = mset ?rs"
    by (rule py_sort_reverse_mset)
  have c: "sorted_wrt (\<lambda>a b. b \<le> a) (map (\<lambda>r. snd (snd r)) ?ranked)"
    by (rule py_sort_reverse_desc)
  have d: "\<forall>k. filter (\<lambda>r. snd (snd r) = k) ?ranked = filter (\<lambda>r. snd (snd r) = k) ?rs"
    by (simp add: py_sort_reverse_stable)
  have e: "length (map report_of (take 5 ?ranked)) \<le> 5"
    by simp
  have f: "?rs = [] \<longrightarrow> sweep cfg spreads = Some []"
    by (simp add: sweep_def r res make_report_def)
  from a b c d e f
  show "\<exists>ranked.
          sweep cfg spreads = Some (map report_of (take 5 ranked))
        \<and> mset ranked = mset ?rs
        \<and> sorted_wrt (\<lambda>a b. b \<le> a) (map (\<lambda>r. snd (snd r)) ranked)
        \<and> (\<forall>k. filter (\<lambda>r. snd (snd r) = k) ranked = filter (\<lambda>r. snd (snd r) = k) ?rs)
        \<and> length (map report_of (take 5 ranked)) \<le> 5
        \<and> (?rs = [] \<longrightarrow> sweep cfg spreads = Some [])"
    by blast
next
  let ?st = "run_calls spreads (half_grid 8 60) \<lparr>sw_results = [], sw_calls = []\<rparr>"
  have a: "sweep_loops default_config spreads = Some ?st"
    by (rule default_sweep_returns)
  have b: "sw_calls ?st = half_grid 8 60"
    by (simp add: sw_calls_run_calls)
  have c: "\<forall>r \<in> set (retained spreads (sw_calls ?st)).
             entry_open (report_of r) = fst r \<and> entry_close (report_of r) = fst (snd r)
           \<and> entry_cycles (report_of r) = snd (snd r)"
    unfolding b
  proof
    fix r
    assume "r \<in> set (retained spreads (half_grid 8 60))"
    then show "entry_open (report_of r) = fst r \<and> entry_close (report_of r) = fst (snd r)
           \<and> entry_cycles (report_of r) = snd (snd r)"
      by (rule report_of_half_grid) simp_all
  qed
  have o: "sorted_wrt grid_before (sw_calls ?st)"
    unfolding b by (rule half_grid_ascending)
  from a b o c
  show "\<exists>st. sweep_loops default_config spreads = Some st
          \<and> sw_calls st = half_grid 8 60
          \<and> sorted_wrt grid_before (sw_calls st)
          \<and> (\<forall>r \<in> set (retained spreads (sw_calls st)).
                 entry_open (report_of r) = fst r \<and> entry_close (report_of r) = fst (snd r)
               \<and> entry_cycles (report_of r) = snd (snd r))"
    by blast
qed

lemma w_retained:
  "retained [9/2, 0, 5, 1/2, 5, 1, 5, 0] [(4, 0), (9 / 2, 0), (9 / 2, 1 / 2), (5, 0), (5, 1 / 2), (5, 1)]
   = [(4, 0, 2), (9/2, 0, 2), (9/2, 1/2, 3), (5, 0, 1), (5, 1/2, 2), (5, 1, 3)]"
  by (simp add: retained_def count_cycles_for_thresholds_def cycle_step_def)

lemma w_sorted:
  "py_sort_reverse (\<lambda>x. snd (snd x))
     [(4, 0, 2), (9/2, 0, 2), (9/2, 1/2, 3), (5, 0, 1), (5, 1/2, 2), (5 :: rat, 1 :: rat, 3 :: int)]
   = [(9/2, 1/2, 3), (5, 1, 3), (4, 0, 2), (9/2, 0, 2), (5, 1/2, 2), (5, 0, 1)]"
  by (simp add: py_sort_reverse_def)

lemma round_half_even_near:
  assumes "\<bar>x - of_int m\<bar> < 1 / 2"
  shows "round_half_even x = m"
proof (cases "of_int m \<le> x")
  case True
  have "x < of_int m + 1" using assms by linarith
  with True have "\<lfloor>x\<rfloor> = m" by (intro floor_unique)
  then show ?thesis using assms True by (simp add: round_half_even_def Let_def)
next
  case False
  have e: "rat_of_int (m - 1) = of_int m - 1" by simp
  have "of_int (m - 1) \<le> x" unfolding e using assms by linarith
  moreover have "x < of_int (m - 1) + 1" unfolding e using False by linarith
  ultimately have f: "\<lfloor>x\<rfloor> = m - 1" by (intro floor_unique)
  have "1 / 2 < x - of_int (m - 1)" unfolding e using assms False by linarith
  then show ?thesis
    unfolding round_half_even_def Let_def f by simp
qed

lemma round_half_even_tie:
  assumes "x = of_int m + 1 / 2" and "even m"
  shows "round_half_even x = m"
proof -
  have "\<lfloor>x\<rfloor> = m" unfolding assms(1) by (intro floor_unique) simp_all
  then show ?thesis using assms by (simp add: round_half_even_def Let_def)
qed

lemma rnd_412: "rnd (103 / 25) = 4638707616191611 / 1125899906842624"
proof -
  have "2 \<le> binade (103 / 25)" by (rule binade_ge) simp_all
  moreover have "binade (103 / 25) < 3" by (rule binade_less) simp_all
  ultimately have b: "binade (103 / 25) = 2" by simp
  have u: "ulp_of (103 / 25) = 1 / 1125899906842624"
    by (simp add: ulp_of_def b power_int_minus_divide)
  have "round_half_even (103 / 25 / (1 / 1125899906842624)) = 4638707616191611"
    by (rule round_half_even_near) simp
  then show ?thesis
    by (simp add: rnd_def u)
qed

lemma py_round_4125: "py_round (33 / 8) 2 = 4638707616191611 / 1125899906842624"
proof -
  have "round_half_even (33 / 8 * 10 ^ 2) = 412"
    by (rule round_half_even_tie) simp_all
  then show ?thesis
    by (simp add: py_round_def rnd_412)
qed


lemma sweep_loops_4125:
  "sweep_loops \<lparr>OPEN_MIN = 33 / 8, OPEN_MAX = 33 / 8, OPEN_STEP = 1 / 2, CLOSE_STEP = 1 / 2\<rparr> spreads
     = Some (sweep_body spreads (33 / 8) 0 \<lparr>sw_results = [], sw_calls = []\<rparr>)"
proof -
  let ?cfg = "\<lparr>OPEN_MIN = 33 / 8, OPEN_MAX = 33 / 8, OPEN_STEP = 1 / 2, CLOSE_STEP = 1 / 2\<rparr>"
  let ?st0 = "\<lparr>sw_results = [], sw_calls = []\<rparr>"
  define g0 where "g0 = fadd (33 / 8) eps"
  have g0: "33 / 8 + 8 / 10000000000 \<le> g0" "g0 \<le> 33 / 8 + 12 / 10000000000"
    using fadd_eps_bounds [of "33 / 8"] by (simp_all add: g0_def)
  define s1 where "s1 = fsub (33 / 8) 4"
  have "\<bar>rnd (33 / 8 - 4) - (33 / 8 - 4)\<bar> \<le> 1 / 281474976710656"
    by (rule rnd_error_64) simp
  then have s1: "1 / 8 - 1 / 281474976710656 \<le> s1" "s1 \<le> 1 / 8 + 1 / 281474976710656"
    unfolding s1_def fsub_def by linarith+
  define t where "t = fadd s1 eps"
  have "0 \<le> s1" "s1 \<le> 62" using s1 by linarith+
  then have t: "s1 + 8 / 10000000000 \<le> t" "t \<le> s1 + 12 / 10000000000"
    using fadd_eps_bounds [of s1] by (simp_all add: t_def)
  define mc where "mc = py_round t 10"
  have "\<bar>t\<bar> < 63" using t s1 by linarith
  then have "\<bar>py_round t 10 - t\<bar> \<le> 1 / 20000000000 + 1 / 281474976710656"
    by (rule py_round_error_10)
  then have mc: "1 / 9 \<le> mc" "mc \<le> 1 / 7"
    unfolding mc_def using t s1 by linarith+
  then have "0 \<le> mc" "mc \<le> 62" by linarith+
  then have "mc + 8 / 10000000000 \<le> fadd mc eps" "fadd mc eps \<le> mc + 12 / 10000000000"
    using fadd_eps_bounds [of mc] by simp_all
  then have "0 \<le> fadd mc eps" "fadd mc eps < 1 / 2"
    using mc by linarith+
  then have g: "rat_of_int 0 / 2 \<le> fadd mc eps" "fadd mc eps < rat_of_int (0 + 1) / 2"
    by simp_all
  have cl: "close_loop ?cfg spreads (33 / 8) mc 0 ?st0 = Some (sweep_body spreads (33 / 8) 0 ?st0)"
    using close_loop_grid [of ?cfg 0 mc 0 spreads "33 / 8" ?st0, OF _ g] by simp
  define nx where "nx = py_round (fadd (33 / 8) (1 / 2)) 10"
  have "\<bar>rnd (33 / 8 + 1 / 2) - (33 / 8 + 1 / 2)\<bar> \<le> 1 / 281474976710656"
    by (rule rnd_error_64) simp
  then have f: "9 / 2 \<le> fadd (33 / 8) (1 / 2)" "fadd (33 / 8) (1 / 2) \<le> 5"
    unfolding fadd_def by linarith+
  then have "\<bar>fadd (33 / 8) (1 / 2)\<bar> < 63" by linarith
  then have "\<bar>py_round (fadd (33 / 8) (1 / 2)) 10 - fadd (33 / 8) (1 / 2)\<bar>
               \<le> 1 / 20000000000 + 1 / 281474976710656"
    by (rule py_round_error_10)
  then have "g0 < nx" unfolding nx_def using f g0 by linarith
  then have ng: "\<not> nx \<le> g0" by simp
  have g1: "33 / 8 \<le> g0" using g0 by linarith
  have nm: "\<not> mc < 0" using mc by linarith
  have stop: "open_loop ?cfg spreads nx st = Some st" for st
    by (subst open_loop.simps)
       (simp only: sweep_config.simps g0_def [symmetric] ng if_False)
  have "open_loop ?cfg spreads (33 / 8) ?st0 = Some (sweep_body spreads (33 / 8) 0 ?st0)"
    by (subst open_loop.simps)
       (simp only: sweep_config.simps g0_def [symmetric] g1 if_True s1_def [symmetric]
                   t_def [symmetric] mc_def [symmetric] Let_def nm if_False cl
                   nx_def [symmetric] stop Option.bind.simps)
  then show ?thesis by (simp add: sweep_loops_def)
qed

text \<open>
  Claim C2 as stated fails where a grid value has more than two decimals: with
  OPEN\_MIN = OPEN\_MAX = 4.125 and the series 5, 0 the detector is called on (4.125, 0)
  only and counts one cycle, and the report holds open = round(4.125, 2), the double
  4.12, which is no pair the sweep enumerated.
\<close>

theorem sweep_report_rounds_counterexample:
  "sweep_loops \<lparr>OPEN_MIN = 33 / 8, OPEN_MAX = 33 / 8, OPEN_STEP = 1 / 2, CLOSE_STEP = 1 / 2\<rparr> [5, 0]
     = Some \<lparr>sw_results = [(33 / 8, 0, 1)], sw_calls = [(33 / 8, 0)]\<rparr>
   \<and> sweep \<lparr>OPEN_MIN = 33 / 8, OPEN_MAX = 33 / 8, OPEN_STEP = 1 / 2, CLOSE_STEP = 1 / 2\<rparr> [5, 0]
     = Some [\<lparr>entry_open = 4638707616191611 / 1125899906842624, entry_close = 0, entry_cycles = 1\<rparr>]
   \<and> (4638707616191611 / 1125899906842624 :: rat) \<noteq> 33 / 8"
proof -
  let ?cfg = "\<lparr>OPEN_MIN = 33 / 8, OPEN_MAX = 33 / 8, OPEN_STEP = 1 / 2, CLOSE_STEP = 1 / 2\<rparr>"
  have b: "sweep_body [5, 0] (33 / 8) 0 \<lparr>sw_results = [], sw_calls = []\<rparr>
             = \<lparr>sw_results = [(33 / 8, 0, 1)], sw_calls = [(33 / 8, 0)]\<rparr>"
    by (simp add: sweep_body_def count_cycles_for_thresholds_def cycle_step_def)
  have a: "sweep_loops ?cfg [5, 0] = Some \<lparr>sw_results = [(33 / 8, 0, 1)], sw_calls = [(33 / 8, 0)]\<rparr>"
    by (simp add: sweep_loops_4125 b)
  have z: "py_round 0 2 = 0"
    using py_round_half [of 0 2] by simp
  have c: "sweep ?cfg [5, 0]
     = Some [\<lparr>entry_open = 4638707616191611 / 1125899906842624, entry_close = 0, entry_cycles = 1\<rparr>]"
    by (simp add: sweep_def a make_report_def py_sort_reverse_def report_of_def py_round_4125 z)
  have d: "(4638707616191611 / 1125899906842624 :: rat) \<noteq> 33 / 8" by simp
  from a c d show ?thesis by blast
qed

theorem sweep_report_ranked_witness:
  "sweep \<lparr>OPEN_MIN = 4, OPEN_MAX = 5, OPEN_STEP = 1 / 2, CLOSE_STEP = 1 / 2\<rparr>
         [9 / 2, 0, 5, 1 / 2, 5, 1, 5, 0]
     = Some [\<lparr>entry_open = 9 / 2, entry_close = 1 / 2, entry_cycles = 3\<rparr>,
             \<lparr>entry_open = 5, entry_close = 1, entry_cycles = 3\<rparr>,
             \<lparr>entry_open = 4, entry_close = 0, entry_cycles = 2\<rparr>,
             \<lparr>entry_open = 9 / 2, entry_close = 0, entry_cycles = 2\<rparr>,
             \<lparr>entry_open = 5, entry_close = 1 / 2, entry_cycles = 2\<rparr>]
   \<and> (\<exists>ranked.
          sweep \<lparr>OPEN_MIN = 4, OPEN_MAX = 5, OPEN_STEP = 1 / 2, CLOSE_STEP = 1 / 2\<rparr>
                [9 / 2, 0, 5, 1 / 2, 5, 1, 5, 0]
            = Some (map report_of (take 5 ranked))
        \<and> mset ranked
            = mset [(4, 0, 2), (9 / 2, 0, 2), (9 / 2, 1 / 2, 3), (5, 0, 1), (5, 1 / 2, 2), (5, 1, 3)]
        \<and> sorted_wrt (\<lambda>a b. b \<le> a) (map (\<lambda>r. snd (snd r)) ranked))"
proof -
  let ?cfg = "\<lparr>OPEN_MIN = 4, OPEN_MAX = 5, OPEN_STEP = 1 / 2, CLOSE_STEP = 1 / 2\<rparr>"
  let ?w = "[9 / 2, 0, 5, 1 / 2, 5, 1, 5, 0 :: rat]"
  let ?st = "run_calls ?w (half_grid 8 10) \<lparr>sw_results = [], sw_calls = []\<rparr>"
  have l: "sweep_loops ?cfg ?w = Some ?st"
    by (rule sweep_loops_grid) simp_all
  have c: "sw_calls ?st = [(4, 0), (9 / 2, 0), (9 / 2, 1 / 2), (5, 0), (5, 1 / 2), (5, 1)]"
    unfolding sw_calls_run_calls half_grid_8_10 by simp
  have rt: "retained ?w (sw_calls ?st)
      = [(4, 0, 2), (9 / 2, 0, 2), (9 / 2, 1 / 2, 3), (5, 0, 1), (5, 1 / 2, 2), (5, 1, 3)]"
    unfolding c by (rule w_retained)
  from sweep_report_ranked [of ?cfg ?w ?st] l
  obtain ranked where r: "sweep ?cfg ?w = Some (map report_of (take 5 ranked))"
      "mset ranked = mset (retained ?w (sw_calls ?st))"
      "sorted_wrt (\<lambda>a b. b \<le> a) (map (\<lambda>r. snd (snd r)) ranked)"
    by blast
  have rs: "sw_results ?st
      = [(4, 0, 2), (9 / 2, 0, 2), (9 / 2, 1 / 2, 3), (5, 0, 1), (5, 1 / 2, 2), (5, 1, 3)]"
    using sweep_loops_inv [OF l] rt by simp
  have p: "py_round 4 2 = 4" "py_round (9 / 2) 2 = 9 / 2" "py_round 5 2 = 5"
      "py_round 0 2 = 0" "py_round (1 / 2) 2 = 1 / 2" "py_round 1 2 = 1"
    using py_round_half [of 8 2] py_round_half [of 9 2] py_round_half [of 10 2]
      py_round_half [of 0 2] py_round_half [of 1 2] py_round_half [of 2 2]
    by simp_all
  have v: "sweep ?cfg ?w
     = Some [\<lparr>entry_open = 9 / 2, entry_close = 1 / 2, entry_cycles = 3\<rparr>,
             \<lparr>entry_open = 5, entry_close = 1, entry_cycles = 3\<rparr>,
             \<lparr>entry_open = 4, entry_close = 0, entry_cycles = 2\<rparr>,
             \<lparr>entry_open = 9 / 2, entry_close = 0, entry_cycles = 2\<rparr>,
             \<lparr>entry_open = 5, entry_close = 1 / 2, entry_cycles = 2\<rparr>]"
    unfolding sweep_def l option.map rs make_report_ranked w_sorted
    by (simp add: report_of_def p)
  have r2: "mset ranked
      = mset [(4, 0, 2), (9 / 2, 0, 2), (9 / 2, 1 / 2, 3), (5, 0, 1), (5, 1 / 2, 2), (5, 1, 3)]"
    using r(2) unfolding rt .
  from r(1) r2 r(3) have "\<exists>ranked.
          sweep ?cfg ?w = Some (map report_of (take 5 ranked))
        \<and> mset ranked
            = mset [(4, 0, 2), (9 / 2, 0, 2), (9 / 2, 1 / 2, 3), (5, 0, 1), (5, 1 / 2, 2), (5, 1, 3)]
        \<and> sorted_wrt (\<lambda>a b. b \<le> a) (map (\<lambda>r. snd (snd r)) ranked)"
    by blast
  with v show ?thesis by (rule conjI)
qed

section \<open>Properties of the orchestrator\<close>











end
